theory Spec2Isabelle
  imports Main
begin

section \<open>Graph store and cost model\<close>

text \<open>
  A shallow embedding of \<^verbatim>\<open>src/testing_criterions/CPT.py\<close>: the classes
  \<^verbatim>\<open>WeightedDigraphManager\<close> and \<^verbatim>\<open>CPTDigraphManager\<close>.

  Node identifiers are opaque (\<open>'n\<close>); an edge identifier is the pair (tail, head).
  Python dictionaries are partial maps; \<^verbatim>\<open>d[k]\<close> on a missing key raises
  \<^verbatim>\<open>KeyError\<close>, \<^verbatim>\<open>d.get(k, x)\<close> returns \<open>x\<close>. Python integers are unbounded
  (\<open>int\<close>).
\<close>

type_synonym 'n edge = "'n \<times> 'n"

datatype error = KeyError | NotSCGException

text \<open>\<^verbatim>\<open>d.get(k, x)\<close>\<close>

definition get_or :: "('k \<rightharpoonup> 'v) \<Rightarrow> 'k \<Rightarrow> 'v \<Rightarrow> 'v" where
  "get_or d k x = (case d k of None \<Rightarrow> x | Some v \<Rightarrow> v)"

text \<open>
  The fields of a manager that \<^verbatim>\<open>compute_cpt\<close> only reads: the node and edge
  enumerations of the graph store (in the store's order), the configured cost function
  and the default cost.
\<close>

record 'n digraph =
  nodes :: "'n list"
  edges :: "'n edge list"
  cost_function :: "'n edge \<rightharpoonup> int"
  default_cost :: int

text \<open>
  The fields \<^verbatim>\<open>compute_cpt\<close> mutates: \<^verbatim>\<open>self.cost\<close>, \<^verbatim>\<open>self.spanning_tree\<close>,
  \<^verbatim>\<open>self.delta\<close>, \<^verbatim>\<open>self.basic_cost\<close> and \<^verbatim>\<open>self.feasible\<close>.
\<close>

record 'n cpt_state =
  cost :: "'n edge \<rightharpoonup> int"
  spanning_tree :: "'n edge \<rightharpoonup> 'n"
  delta :: "'n \<rightharpoonup> int"
  basic_cost :: int
  feasible :: "'n edge \<rightharpoonup> int"

text \<open>
  Modelled from the spec: the graph store (class \<^verbatim>\<open>DigraphManager\<close> and its node
  objects) is not part of the sources. The spec gives it a node set and a directed edge
  set without multi-edges, enumerated in a stable order, insertion of nodes and edges, and
  per node the imbalance "out-degree minus in-degree".
\<close>

definition outgoing_dim :: "'n digraph \<Rightarrow> 'n \<Rightarrow> int" where
  "outgoing_dim g n = int (length (filter (\<lambda>e. fst e = n) (edges g)))"

definition incoming_dim :: "'n digraph \<Rightarrow> 'n \<Rightarrow> int" where
  "incoming_dim g n = int (length (filter (\<lambda>e. snd e = n) (edges g)))"

definition add_nodes :: "'n list \<Rightarrow> 'n digraph \<Rightarrow> 'n digraph" where
  "add_nodes ns g = g\<lparr>nodes := nodes g @ filter (\<lambda>n. n \<notin> set (nodes g)) (remdups ns)\<rparr>"

definition connect_nodes :: "'n edge \<Rightarrow> 'n digraph \<Rightarrow> 'n digraph" where
  "connect_nodes e g = (if e \<in> set (edges g) then g else g\<lparr>edges := edges g @ [e]\<rparr>)"

text \<open>
  A graph store as the spec describes it: no node listed twice, no edge listed twice,
  and every edge joins two nodes of the store.
\<close>

definition wf_digraph :: "'n digraph \<Rightarrow> bool" where
  "wf_digraph g \<longleftrightarrow>
     distinct (nodes g) \<and> distinct (edges g) \<and>
     (\<forall>e \<in> set (edges g). fst e \<in> set (nodes g) \<and> snd e \<in> set (nodes g))"

section \<open>WeightedDigraphManager\<close>

text \<open>\<^verbatim>\<open>_set_cost\<close>, \<^verbatim>\<open>_set_spanning_tree\<close>: one entry per edge of the store.\<close>

definition set_cost :: "'n digraph \<Rightarrow> ('n edge \<rightharpoonup> int)" where
  "set_cost g =
     (\<lambda>e. if e \<in> set (edges g)
          then Some (get_or (cost_function g) e (default_cost g)) else None)"

definition set_spanning_tree :: "'n digraph \<Rightarrow> ('n edge \<rightharpoonup> 'n)" where
  "set_spanning_tree g = (\<lambda>e. if e \<in> set (edges g) then Some (snd e) else None)"

text \<open>\<^verbatim>\<open>update_cost_function\<close>: \<^verbatim>\<open>self.cost_function |= cost_function\<close>.\<close>

definition update_cost_function :: "('n edge \<rightharpoonup> int) \<Rightarrow> 'n digraph \<Rightarrow> 'n digraph" where
  "update_cost_function cf g = g\<lparr>cost_function := cost_function g ++ cf\<rparr>"

text \<open>
  \<^verbatim>\<open>least_cost_paths\<close>. The innermost loop runs over \<open>node_j\<close>; it returns
  \<open>Inr True\<close> when the source executes its early \<^verbatim>\<open>return\<close> (a self pair just
  written with a negative cost), \<open>Inr False\<close> when the loop runs to its end, and
  \<open>Inl KeyError\<close> where a subscript fails. The state returned is the state reached.
  The condition of the \<^verbatim>\<open>if\<close> is evaluated left to right with short circuit, so
  \<^verbatim>\<open>cost[(node_i, node_k)]\<close> is only read when \<open>(node_i, node_j)\<close> has an entry;
  the new cost is computed with \<^verbatim>\<open>get\<close>.
\<close>

fun lcp_j :: "'n cpt_state \<Rightarrow> 'n \<Rightarrow> 'n \<Rightarrow> 'n list \<Rightarrow> (error + bool) \<times> 'n cpt_state" where
  "lcp_j m k i [] = (Inr False, m)"
| "lcp_j m k i (j # js) =
     (case cost m (k, j) of
        None \<Rightarrow> lcp_j m k i js
      | Some ckj \<Rightarrow>
          (case (case cost m (i, j) of
                   None \<Rightarrow> Inr True
                 | Some cij \<Rightarrow>
                     (case cost m (i, k) of
                        None \<Rightarrow> Inl KeyError
                      | Some cik \<Rightarrow> Inr (cij > cik + ckj))) of
             Inl e \<Rightarrow> (Inl e, m)
           | Inr False \<Rightarrow> lcp_j m k i js
           | Inr True \<Rightarrow>
               (case spanning_tree m (i, k) of
                  None \<Rightarrow> (Inl KeyError, m)
                | Some t \<Rightarrow>
                    let c = get_or (cost m) (i, k) 0 + get_or (cost m) (k, j) 0;
                        m' = m\<lparr>spanning_tree := (spanning_tree m)((i, j) \<mapsto> t),
                               cost := (cost m)((i, j) \<mapsto> c)\<rparr>
                    in if i = j \<and> c < 0 then (Inr True, m') else lcp_j m' k i js)))"

text \<open>The outer loop over \<^verbatim>\<open>product(self.nodes, self.nodes)\<close>, as pairs \<open>(k, i)\<close>.\<close>

fun lcp_ki :: "'n list \<Rightarrow> 'n cpt_state \<Rightarrow> ('n \<times> 'n) list \<Rightarrow> (error + bool) \<times> 'n cpt_state" where
  "lcp_ki ns m [] = (Inr False, m)"
| "lcp_ki ns m ((k, i) # kis) =
     (if cost m (i, k) \<noteq> None
      then (case lcp_j m k i ns of
              (Inr False, m') \<Rightarrow> lcp_ki ns m' kis
            | r \<Rightarrow> r)
      else lcp_ki ns m kis)"

definition least_cost_paths :: "'n digraph \<Rightarrow> 'n cpt_state \<Rightarrow> (error + bool) \<times> 'n cpt_state" where
  "least_cost_paths g m = lcp_ki (nodes g) m (List.product (nodes g) (nodes g))"

text \<open>\<^verbatim>\<open>check_if_digraph_is_strongly_connected\<close>\<close>

definition check_if_digraph_is_strongly_connected ::
    "'n digraph \<Rightarrow> 'n cpt_state \<Rightarrow> (error + bool) \<times> 'n cpt_state" where
  "check_if_digraph_is_strongly_connected g m =
     (case least_cost_paths g m of
        (Inl e, m') \<Rightarrow> (Inl e, m')
      | (Inr _, m') \<Rightarrow>
          (Inr (list_all (\<lambda>th. cost m' th \<noteq> None) (List.product (nodes g) (nodes g))), m'))"

section \<open>CPTDigraphManager\<close>

text \<open>\<^verbatim>\<open>_set_delta\<close>, \<^verbatim>\<open>_set_basic_cost\<close>\<close>

definition set_delta :: "'n digraph \<Rightarrow> ('n \<rightharpoonup> int)" where
  "set_delta g =
     (\<lambda>n. if n \<in> set (nodes g) then Some (outgoing_dim g n - incoming_dim g n) else None)"

definition set_basic_cost :: "'n digraph \<Rightarrow> int" where
  "set_basic_cost g =
     sum_list (map (\<lambda>e. get_or (cost_function g) e (default_cost g)) (edges g))"

text \<open>
  The transient fields as \<^verbatim>\<open>__init__\<close> leaves them, and as the last five statements
  of \<^verbatim>\<open>compute_cpt\<close> set them again.
\<close>

definition init_state :: "'n digraph \<Rightarrow> 'n cpt_state" where
  "init_state g =
     \<lparr>cost = set_cost g, spanning_tree = set_spanning_tree g, delta = set_delta g,
      basic_cost = set_basic_cost g, feasible = Map.empty\<rparr>"

text \<open>\<^verbatim>\<open>_split_nodes_based_on_delta\<close>; the result is \<open>(delta_neq, delta_pos)\<close>.\<close>

fun split_loop :: "('n \<rightharpoonup> int) \<Rightarrow> 'n list \<Rightarrow> 'n list \<Rightarrow> 'n list \<Rightarrow> error + ('n list \<times> 'n list)" where
  "split_loop d [] delta_neq delta_pos = Inr (delta_neq, delta_pos)"
| "split_loop d (n # ns) delta_neq delta_pos =
     (case d n of
        None \<Rightarrow> Inl KeyError
      | Some x \<Rightarrow>
          if x < 0 then split_loop d ns (delta_neq @ [n]) delta_pos
          else if x > 0 then split_loop d ns delta_neq (delta_pos @ [n])
          else split_loop d ns delta_neq delta_pos)"

definition split_nodes_based_on_delta ::
    "'n digraph \<Rightarrow> 'n cpt_state \<Rightarrow> error + ('n list \<times> 'n list)" where
  "split_nodes_based_on_delta g m = split_loop (delta m) (nodes g) [] []"

text \<open>\<^verbatim>\<open>_find_feasible\<close>: the loop over \<^verbatim>\<open>product(delta_neq, delta_pos)\<close>.\<close>

fun find_feasible_loop :: "'n cpt_state \<Rightarrow> ('n \<times> 'n) list \<Rightarrow> (error + unit) \<times> 'n cpt_state" where
  "find_feasible_loop m [] = (Inr (), m)"
| "find_feasible_loop m ((node_neq, node_pos) # ps) =
     (case delta m node_neq of
        None \<Rightarrow> (Inl KeyError, m)
      | Some dn \<Rightarrow>
          (case delta m node_pos of
             None \<Rightarrow> (Inl KeyError, m)
           | Some dp \<Rightarrow>
               let f = (if - dn < dp then - dn else dp);
                   m1 = m\<lparr>feasible := (feasible m)((node_neq, node_pos) \<mapsto> f)\<rparr>;
                   m2 = m1\<lparr>delta := (delta m1)(node_neq \<mapsto> dn + f)\<rparr>
               in (case delta m2 node_pos of
                     None \<Rightarrow> (Inl KeyError, m2)
                   | Some dp' \<Rightarrow>
                       find_feasible_loop
                         (m2\<lparr>delta := (delta m2)(node_pos \<mapsto> dp' - f)\<rparr>) ps)))"

definition find_feasible ::
    "'n cpt_state \<Rightarrow> 'n list \<Rightarrow> 'n list \<Rightarrow> (error + unit) \<times> 'n cpt_state" where
  "find_feasible m delta_neq delta_pos =
     find_feasible_loop m (List.product delta_neq delta_pos)"

text \<open>
  \<^verbatim>\<open>_get_residual_diblob_manager_for_cpt\<close>: a fresh store receives every node of
  this manager, then the loop over \<^verbatim>\<open>product(delta_neq, delta_pos)\<close> adds edges and
  residual costs; the result is a new \<^verbatim>\<open>CPTDigraphManager\<close>, that is a store with
  its cost function and the transient fields its constructor computes.
\<close>

fun residual_loop ::
    "('n edge \<rightharpoonup> int) \<Rightarrow> ('n edge \<rightharpoonup> int) \<Rightarrow> ('n \<times> 'n) list \<Rightarrow> 'n digraph \<Rightarrow>
     ('n edge \<rightharpoonup> int) \<Rightarrow> error + ('n digraph \<times> ('n edge \<rightharpoonup> int))" where
  "residual_loop c f [] residual_digraph residual_cost = Inr (residual_digraph, residual_cost)"
| "residual_loop c f ((node_neq, node_pos) # ps) residual_digraph residual_cost =
     (let rd1 = connect_nodes (node_neq, node_pos) residual_digraph in
      case c (node_neq, node_pos) of
        None \<Rightarrow> Inl KeyError
      | Some cnp \<Rightarrow>
          let rc1 = residual_cost((node_neq, node_pos) \<mapsto> cnp) in
          (case f (node_neq, node_pos) of
             None \<Rightarrow> Inl KeyError
           | Some fnp \<Rightarrow>
               if fnp \<noteq> 0
               then residual_loop c f ps (connect_nodes (node_pos, node_neq) rd1)
                      (rc1((node_pos, node_neq) \<mapsto> - cnp))
               else residual_loop c f ps rd1 rc1))"

definition get_residual_diblob_manager_for_cpt ::
    "'n digraph \<Rightarrow> 'n cpt_state \<Rightarrow> 'n list \<Rightarrow> 'n list \<Rightarrow> error + ('n digraph \<times> 'n cpt_state)" where
  "get_residual_diblob_manager_for_cpt g m delta_neq delta_pos =
     (case residual_loop (cost m) (feasible m) (List.product delta_neq delta_pos)
             (add_nodes (nodes g)
                \<lparr>nodes = [], edges = [], cost_function = Map.empty,
                 default_cost = default_cost g\<rparr>)
             Map.empty of
        Inl e \<Rightarrow> Inl e
      | Inr (residual_digraph, residual_cost) \<Rightarrow>
          let rg = residual_digraph\<lparr>cost_function := residual_cost\<rparr>
          in Inr (rg, init_state rg))"

text \<open>
  \<^verbatim>\<open>_improvements\<close>. The two \<^verbatim>\<open>while True\<close> loops follow the residual spanning tree
  and need not end, so they are partial functions: \<open>None\<close> is a loop that never exits.
  \<open>find_k\<close> is the first loop (its result is \<open>k\<close>), \<open>cancel_k\<close> the second one
  (its result is the updated \<^verbatim>\<open>self.feasible\<close>).
\<close>

partial_function (option) find_k ::
    "('n edge \<rightharpoonup> int) \<Rightarrow> ('n edge \<rightharpoonup> 'n) \<Rightarrow> ('n edge \<rightharpoonup> int) \<Rightarrow> 'n \<Rightarrow> 'n \<Rightarrow> int \<Rightarrow> bool \<Rightarrow>
     (error + int) option" where
  "find_k rcost rtree f node_id u k flag =
     (case rtree (u, node_id) of
        None \<Rightarrow> Some (Inl KeyError)
      | Some v \<Rightarrow>
          (case rcost (u, v) of
             None \<Rightarrow> Some (Inl KeyError)
           | Some c \<Rightarrow>
               if c < 0 \<and> (flag \<or> k > get_or f (v, u) 0)
               then (if v = node_id then Some (Inr (get_or f (v, u) 0))
                     else find_k rcost rtree f node_id v (get_or f (v, u) 0) False)
               else (if v = node_id then Some (Inr k)
                     else find_k rcost rtree f node_id v k flag)))"

partial_function (option) cancel_k ::
    "('n edge \<rightharpoonup> int) \<Rightarrow> ('n edge \<rightharpoonup> 'n) \<Rightarrow> 'n \<Rightarrow> 'n \<Rightarrow> int \<Rightarrow> ('n edge \<rightharpoonup> int) \<Rightarrow>
     ((error + unit) \<times> ('n edge \<rightharpoonup> int)) option" where
  "cancel_k rcost rtree node_id u k f =
     (case rtree (u, node_id) of
        None \<Rightarrow> Some (Inl KeyError, f)
      | Some v \<Rightarrow>
          (case rcost (u, v) of
             None \<Rightarrow> Some (Inl KeyError, f)
           | Some c \<Rightarrow>
               let f' = (if c < 0 then f((v, u) \<mapsto> get_or f (v, u) 0 - k)
                         else f((u, v) \<mapsto> get_or f (u, v) 0 + k))
               in if v = node_id then Some (Inr (), f')
                  else cancel_k rcost rtree node_id v k f'))"

text \<open>The \<^verbatim>\<open>for node_id in self.nodes\<close> loop of \<^verbatim>\<open>_improvements\<close>.\<close>

fun improvements_loop ::
    "('n edge \<rightharpoonup> int) \<Rightarrow> ('n edge \<rightharpoonup> 'n) \<Rightarrow> 'n cpt_state \<Rightarrow> 'n list \<Rightarrow>
     ((error + bool) \<times> 'n cpt_state) option" where
  "improvements_loop rcost rtree m [] = Some (Inr False, m)"
| "improvements_loop rcost rtree m (node_id # ns) =
     (if get_or rcost (node_id, node_id) 0 < 0
      then (case find_k rcost rtree (feasible m) node_id node_id 0 True of
              None \<Rightarrow> None
            | Some (Inl e) \<Rightarrow> Some (Inl e, m)
            | Some (Inr k) \<Rightarrow>
                (case cancel_k rcost rtree node_id node_id k (feasible m) of
                   None \<Rightarrow> None
                 | Some (Inl e, f') \<Rightarrow> Some (Inl e, m\<lparr>feasible := f'\<rparr>)
                 | Some (Inr _, f') \<Rightarrow> Some (Inr True, m\<lparr>feasible := f'\<rparr>)))
      else improvements_loop rcost rtree m ns)"

text \<open>
  \<^verbatim>\<open>self._improvements(residual_cpt)\<close>: the residual manager contributes its
  \<^verbatim>\<open>cost\<close> and \<^verbatim>\<open>spanning_tree\<close>, this manager its nodes and \<^verbatim>\<open>feasible\<close>.
\<close>

definition improvements ::
    "'n digraph \<Rightarrow> 'n cpt_state \<Rightarrow> 'n cpt_state \<Rightarrow> ((error + bool) \<times> 'n cpt_state) option" where
  "improvements g m residual_cpt =
     improvements_loop (cost residual_cpt) (spanning_tree residual_cpt) m (nodes g)"

text \<open>\<^verbatim>\<open>_get_cost\<close>: \<open>phi\<close> accumulates over \<^verbatim>\<open>product(nodes, nodes)\<close>.\<close>

definition get_cost :: "'n digraph \<Rightarrow> 'n cpt_state \<Rightarrow> int" where
  "get_cost g m =
     fold (\<lambda>(tail_id, head_id) phi.
             phi + get_or (cost m) (tail_id, head_id) 0 * - get_or (feasible m) (tail_id, head_id) 0)
          (List.product (nodes g) (nodes g)) 0
     + basic_cost m"

text \<open>\<^verbatim>\<open>_find_path\<close>: the first node with a positive entry, or \<^verbatim>\<open>None\<close>.\<close>

definition find_path :: "'n digraph \<Rightarrow> 'n \<Rightarrow> ('n edge \<rightharpoonup> int) \<Rightarrow> 'n option" where
  "find_path g frm f = find (\<lambda>node_id. get_or f (frm, node_id) 0 > 0) (nodes g)"

text \<open>
  The inner loop of \<^verbatim>\<open>_get_cpt\<close>, \<^verbatim>\<open>while u != v\<close>: it follows the spanning tree from
  \<open>u\<close> towards \<open>v\<close> and appends every hop to the tour.
\<close>

partial_function (option) walk_path ::
    "('n edge \<rightharpoonup> 'n) \<Rightarrow> 'n \<Rightarrow> 'n \<Rightarrow> 'n edge list \<Rightarrow> (error + 'n edge list) option" where
  "walk_path tree u v cpt =
     (if u \<noteq> v
      then (case tree (u, v) of
              None \<Rightarrow> Some (Inl KeyError)
            | Some p \<Rightarrow> walk_path tree p v (cpt @ [(u, p)]))
      else Some (Inr cpt))"

text \<open>
  One pass of the outer \<^verbatim>\<open>while True\<close> loop of \<^verbatim>\<open>_get_cpt\<close>, from the value of
  \<open>v\<close> at the top of the loop. The assignment \<^verbatim>\<open>feasible[(u, v)] =- 1\<close> stores the
  value \<open>-1\<close>.
\<close>

partial_function (option) get_cpt_loop ::
    "'n digraph \<Rightarrow> ('n edge \<rightharpoonup> 'n) \<Rightarrow> 'n \<Rightarrow> 'n \<Rightarrow> ('n edge \<rightharpoonup> int) \<Rightarrow> 'n edge set \<Rightarrow> 'n edge list \<Rightarrow>
     ((error + 'n edge list) \<times> ('n edge \<rightharpoonup> int)) option" where
  "get_cpt_loop g tree start_node v f edges_will_not_be_processed cpt =
     (let u = v in
      case find_path g u f of
        Some v' \<Rightarrow>
          (let f' = f((u, v') \<mapsto> - 1) in
           case walk_path tree u v' cpt of
             None \<Rightarrow> None
           | Some (Inl e) \<Rightarrow> Some (Inl e, f')
           | Some (Inr cpt') \<Rightarrow>
               get_cpt_loop g tree start_node v' f' edges_will_not_be_processed cpt')
      | None \<Rightarrow>
          (case tree (u, start_node) of
             None \<Rightarrow> Some (Inl KeyError, f)
           | Some bridge_node \<Rightarrow>
               if (u, bridge_node) \<in> edges_will_not_be_processed then Some (Inr cpt, f)
               else
                 let v' = (case find (\<lambda>node_id. node_id \<noteq> bridge_node
                                       \<and> (u, node_id) \<in> set (edges g)
                                       \<and> (u, node_id) \<notin> edges_will_not_be_processed)
                                  (nodes g) of
                             Some node_id \<Rightarrow> node_id
                           | None \<Rightarrow> bridge_node)
                 in get_cpt_loop g tree start_node v' f
                      (insert (u, v') edges_will_not_be_processed) (cpt @ [(u, v')])))"

definition get_cpt ::
    "'n digraph \<Rightarrow> 'n cpt_state \<Rightarrow> 'n \<Rightarrow> ((error + 'n edge list) \<times> 'n cpt_state) option" where
  "get_cpt g m start_node =
     (case get_cpt_loop g (spanning_tree m) start_node start_node (feasible m) {} [] of
        None \<Rightarrow> None
      | Some (r, f') \<Rightarrow> Some (r, m\<lparr>feasible := f'\<rparr>))"

text \<open>
  The loop \<^verbatim>\<open>while self._improvements(residual_cpt)\<close> of \<^verbatim>\<open>compute_cpt\<close>, with the
  construction of the residual manager before each test.
\<close>

partial_function (option) improve_loop ::
    "'n digraph \<Rightarrow> 'n list \<Rightarrow> 'n list \<Rightarrow> 'n cpt_state \<Rightarrow> ((error + unit) \<times> 'n cpt_state) option" where
  "improve_loop g delta_neq delta_pos m =
     (case get_residual_diblob_manager_for_cpt g m delta_neq delta_pos of
        Inl e \<Rightarrow> Some (Inl e, m)
      | Inr (rg, residual_cpt) \<Rightarrow>
          (case improvements g m residual_cpt of
             None \<Rightarrow> None
           | Some (Inl e, m') \<Rightarrow> Some (Inl e, m')
           | Some (Inr improved, m') \<Rightarrow>
               if improved then improve_loop g delta_neq delta_pos m'
               else Some (Inr (), m')))"

text \<open>
  \<^verbatim>\<open>compute_cpt\<close>, first part (its statements up to the end of the \<^verbatim>\<open>while\<close>
  loop): the connectivity check and the raise, the split of the nodes, the feasible
  assignment and the improvement loop. The result is \<open>None\<close> when a loop never exits;
  otherwise the exception raised, if any, and the transient fields reached.
\<close>

definition compute_cpt_assignment ::
    "'n digraph \<Rightarrow> 'n cpt_state \<Rightarrow> ((error + unit) \<times> 'n cpt_state) option" where
  "compute_cpt_assignment g m =
     (case check_if_digraph_is_strongly_connected g m of
        (Inl e, m1) \<Rightarrow> Some (Inl e, m1)
      | (Inr False, m1) \<Rightarrow> Some (Inl NotSCGException, m1)
      | (Inr True, m1) \<Rightarrow>
          (case split_nodes_based_on_delta g m1 of
             Inl e \<Rightarrow> Some (Inl e, m1)
           | Inr (delta_neq, delta_pos) \<Rightarrow>
               (case find_feasible m1 delta_neq delta_pos of
                  (Inl e, m2) \<Rightarrow> Some (Inl e, m2)
                | (Inr _, m2) \<Rightarrow> improve_loop g delta_neq delta_pos m2)))"

text \<open>
  \<^verbatim>\<open>compute_cpt\<close>, whole. In
  \<^verbatim>\<open>cpt, cost = self._get_cpt(start_node), self._get_cost()\<close> the tour is extracted
  first and the cost is computed from the fields the extraction leaves; the five statements
  after it set the transient fields as the constructor does.
\<close>

definition compute_cpt ::
    "'n digraph \<Rightarrow> 'n cpt_state \<Rightarrow> 'n \<Rightarrow>
     ((error + ('n edge list \<times> int)) \<times> 'n cpt_state) option" where
  "compute_cpt g m start_node =
     (case compute_cpt_assignment g m of
        None \<Rightarrow> None
      | Some (Inl e, m3) \<Rightarrow> Some (Inl e, m3)
      | Some (Inr _, m3) \<Rightarrow>
          (case get_cpt g m3 start_node of
             None \<Rightarrow> None
           | Some (Inl e, m4) \<Rightarrow> Some (Inl e, m4)
           | Some (Inr cpt, m4) \<Rightarrow> Some (Inr (cpt, get_cost g m4), init_state g)))"

declare find_k.simps [code]
declare cancel_k.simps [code]
declare walk_path.simps [code]
declare get_cpt_loop.simps [code]
declare improve_loop.simps [code]

section \<open>Notions the properties are stated with\<close>

text \<open>An edge sequence that leads from \<open>u\<close> to \<open>v\<close>, each edge starting where the last ended.\<close>

fun is_walk :: "'n \<Rightarrow> 'n edge list \<Rightarrow> 'n \<Rightarrow> bool" where
  "is_walk u [] v \<longleftrightarrow> u = v"
| "is_walk u (e # es) v \<longleftrightarrow> fst e = u \<and> is_walk (snd e) es v"

definition covers_all_edges :: "'n digraph \<Rightarrow> 'n edge list \<Rightarrow> bool" where
  "covers_all_edges g w \<longleftrightarrow> list_all (\<lambda>e. e \<in> set w) (edges g)"

text \<open>The cost of an edge sequence under the cost model of the graph.\<close>

definition walk_cost :: "'n digraph \<Rightarrow> 'n edge list \<Rightarrow> int" where
  "walk_cost g w = sum_list (map (\<lambda>e. get_or (cost_function g) e (default_cost g)) w)"

text \<open>
  The cost of the duplications of an assignment: over the (deficit, surplus) pairs, the
  closure cost of the pair times the amount assigned to it.
\<close>

definition duplication_cost :: "'n cpt_state \<Rightarrow> 'n list \<Rightarrow> 'n list \<Rightarrow> int" where
  "duplication_cost m delta_neq delta_pos =
     sum_list (map (\<lambda>p. get_or (cost m) p 0 * get_or (feasible m) p 0)
                   (List.product delta_neq delta_pos))"

text \<open>
  What the closure computation maintains: every pair with a cost entry is joined by a
  path of at least one edge, and has a spanning-tree entry. The constructor establishes it.
\<close>

definition closure_sound :: "'n digraph \<Rightarrow> 'n cpt_state \<Rightarrow> bool" where
  "closure_sound g m \<longleftrightarrow>
     (\<forall>e. cost m e \<noteq> None \<longrightarrow> e \<in> (set (edges g))\<^sup>+ \<and> spanning_tree m e \<noteq> None)"

text \<open>Strong connectivity of the graph itself: every node reaches every node.\<close>

definition strongly_connected :: "'n digraph \<Rightarrow> bool" where
  "strongly_connected g \<longleftrightarrow>
     (\<forall>u \<in> set (nodes g). \<forall>v \<in> set (nodes g). (u, v) \<in> (set (edges g))\<^sup>*)"


text \<open>
  Reading the imbalance of a node and the amount assigned to a pair, 0 where the
  dictionary has no entry.
\<close>

abbreviation delta_of :: "'n cpt_state \<Rightarrow> 'n \<Rightarrow> int" where
  "delta_of m x \<equiv> get_or (delta m) x 0"

abbreviation assigned :: "'n cpt_state \<Rightarrow> 'n edge \<Rightarrow> int" where
  "assigned m e \<equiv> get_or (feasible m) e 0"

text \<open>
  What the feasible assignment loop maintains for the deficit nodes \<open>dn\<close> and the surplus
  nodes \<open>dp\<close>: every deficit node has a remaining imbalance at most 0, every surplus
  node one at least 0.
\<close>

definition imbalance_ok :: "'n list \<Rightarrow> 'n list \<Rightarrow> 'n cpt_state \<Rightarrow> bool" where
  "imbalance_ok dn dp m \<longleftrightarrow>
     (\<forall>d \<in> set dn. \<exists>x. delta m d = Some x \<and> x \<le> 0)
     \<and> (\<forall>p \<in> set dp. \<exists>x. delta m p = Some x \<and> 0 \<le> x)"


text \<open>
  The cycle the canceller follows: from \<open>u\<close> the residual spanning tree leads through the
  nodes \<open>vs\<close>, none of them \<open>n\<close>, and from the last of them to \<open>n\<close>. With \<open>u = n\<close> this is
  the walk "from \<open>n\<close> back to \<open>n\<close>"; its edges are \<open>cycle_edges n vs\<close>.
\<close>

fun tree_walk :: "('n edge \<rightharpoonup> 'n) \<Rightarrow> 'n \<Rightarrow> 'n \<Rightarrow> 'n list \<Rightarrow> bool" where
  "tree_walk rtree n u [] \<longleftrightarrow> rtree (u, n) = Some n"
| "tree_walk rtree n u (v # vs) \<longleftrightarrow> rtree (u, n) = Some v \<and> v \<noteq> n \<and> tree_walk rtree n v vs"

definition cycle_edges :: "'n \<Rightarrow> 'n list \<Rightarrow> 'n edge list" where
  "cycle_edges n vs = zip (n # vs) (vs @ [n])"

text \<open>
  The reverse edges of a cycle are its edges of negative residual cost; the reverse edge
  \<open>(u, v)\<close> carries the assignment of the pair \<open>(v, u)\<close>. The bottleneck is the least
  such assignment (0 when the cycle has no reverse edge).
\<close>

definition reverse_amounts :: "('n edge \<rightharpoonup> int) \<Rightarrow> ('n edge \<rightharpoonup> int) \<Rightarrow> 'n edge list \<Rightarrow> int list" where
  "reverse_amounts rcost f cyc =
     map (\<lambda>(u, v). get_or f (v, u) 0) (filter (\<lambda>e. get_or rcost e 0 < 0) cyc)"

definition bottleneck :: "('n edge \<rightharpoonup> int) \<Rightarrow> ('n edge \<rightharpoonup> int) \<Rightarrow> 'n edge list \<Rightarrow> int" where
  "bottleneck rcost f cyc =
     (if reverse_amounts rcost f cyc = [] then 0 else Min (set (reverse_amounts rcost f cyc)))"

text \<open>
  Cancelling \<open>k\<close> along a cycle: edge after edge, \<open>k\<close> is subtracted from the entry of a
  reverse edge's pair and added to the entry of a forward edge.
\<close>

definition cancel_edge :: "('n edge \<rightharpoonup> int) \<Rightarrow> int \<Rightarrow> 'n edge \<Rightarrow> ('n edge \<rightharpoonup> int) \<Rightarrow> ('n edge \<rightharpoonup> int)" where
  "cancel_edge rcost k e f =
     (if get_or rcost e 0 < 0
      then f((snd e, fst e) \<mapsto> get_or f (snd e, fst e) 0 - k)
      else f(e \<mapsto> get_or f e 0 + k))"

definition cancel_cycle :: "('n edge \<rightharpoonup> int) \<Rightarrow> int \<Rightarrow> 'n edge list \<Rightarrow> ('n edge \<rightharpoonup> int) \<Rightarrow> ('n edge \<rightharpoonup> int)" where
  "cancel_cycle rcost k cyc f = fold (cancel_edge rcost k) cyc f"















section \<open>Example graphs\<close>

text \<open>
  Four nodes, six edges of cost 1: \<open>y\<close> has three outgoing edges and one incoming,
  \<open>x\<close> one outgoing and three incoming. The graph is strongly connected
  (\<open>x \<rightarrow> y \<rightarrow> p \<rightarrow> x\<close>, \<open>y \<rightarrow> q \<rightarrow> x\<close>), and two extra traversals from \<open>x\<close> to \<open>y\<close> are
  needed.
\<close>

definition two_unit_graph :: "string digraph" where
  "two_unit_graph =
     \<lparr>nodes = [''y'', ''x'', ''p'', ''q''],
      edges = [(''y'', ''p''), (''y'', ''q''), (''y'', ''x''),
               (''p'', ''x''), (''q'', ''x''), (''x'', ''y'')],
      cost_function = Map.empty, default_cost = 1\<rparr>"

text \<open>Three nodes in a row: \<open>c\<close> reaches no other node.\<close>

definition path_graph :: "string digraph" where
  "path_graph =
     \<lparr>nodes = [''a'', ''b'', ''c''], edges = [(''a'', ''b''), (''b'', ''c'')],
      cost_function = Map.empty, default_cost = 1\<rparr>"


text \<open>
  The graph of the repeated-call example at the end of the source file, nodes and edges in
  the order of the \<^verbatim>\<open>add_nodes\<close> and \<^verbatim>\<open>connect_nodes\<close> calls.
\<close>

definition cpt_test :: "string digraph" where
  "cpt_test =
     \<lparr>nodes = [''A'', ''B'', ''C'', ''D'', ''s'', ''t''],
      edges = [(''A'', ''B''), (''A'', ''C''), (''B'', ''D''), (''C'', ''D''),
               (''s'', ''A''), (''D'', ''t''), (''t'', ''s'')],
      cost_function = Map.empty, default_cost = 1\<rparr>"

text \<open>
  The transient fields of \<open>cpt_test\<close> when \<^verbatim>\<open>compute_cpt\<close> builds its residual
  manager: after the connectivity check and the feasible assignment (\<open>D\<close> is the only
  deficit node, \<open>A\<close> the only surplus node).
\<close>

definition cpt_test_assigned :: "string cpt_state" where
  "cpt_test_assigned =
     snd (find_feasible
            (snd (check_if_digraph_is_strongly_connected cpt_test (init_state cpt_test)))
            [''D''] [''A''])"


text \<open>
  The same instance after \<^verbatim>\<open>cpt_test.update_cost_function({('t', 's'): 20})\<close>: the
  cost function has the new entry; the transient fields of the instance are still the ones
  \<^verbatim>\<open>connect_nodes\<close> computed, \<open>init_state cpt_test\<close>.
\<close>

definition cpt_test_updated :: "string digraph" where
  "cpt_test_updated = update_cost_function [(''t'', ''s'') \<mapsto> 20] cpt_test"

text \<open>
  The graph of the first example of the source file; every node is unbalanced, two
  deficit nodes and two surplus nodes.
\<close>

definition two_by_two_graph :: "string digraph" where
  "two_by_two_graph =
     \<lparr>nodes = [''2'', ''3'', ''0'', ''1''],
      edges = [(''2'', ''3''), (''3'', ''0''), (''0'', ''1''), (''0'', ''2''),
               (''1'', ''2''), (''1'', ''3'')],
      cost_function = Map.empty, default_cost = 1\<rparr>"

text \<open>
  Two deficit nodes and two surplus nodes, each deficit node one edge away from "the
  other" surplus node. \<open>crossed_assigned\<close> are the transient fields after the connectivity
  check and the feasible assignment; \<open>crossed_residual\<close> is the residual manager built from
  them, with its cost closure computed.
\<close>

definition crossed_graph :: "string digraph" where
  "crossed_graph =
     \<lparr>nodes = [''d1'', ''d2'', ''s1'', ''s2''],
      edges = [(''d1'', ''s2''), (''d2'', ''s1''), (''s1'', ''d1''), (''s1'', ''d2''),
               (''s2'', ''d1''), (''s2'', ''d2'')],
      cost_function = Map.empty, default_cost = 1\<rparr>"

definition crossed_assigned :: "string cpt_state" where
  "crossed_assigned =
     snd (find_feasible
            (snd (check_if_digraph_is_strongly_connected crossed_graph (init_state crossed_graph)))
            [''d1'', ''d2''] [''s1'', ''s2''])"

definition crossed_residual :: "string cpt_state" where
  "crossed_residual =
     (case get_residual_diblob_manager_for_cpt crossed_graph crossed_assigned
             [''d1'', ''d2''] [''s1'', ''s2''] of
        Inr (rg, rm) \<Rightarrow> snd (least_cost_paths rg rm)
      | Inl e \<Rightarrow> init_state crossed_graph)"

text \<open>
  The residual manager as \<^verbatim>\<open>compute_cpt\<close> hands it to \<^verbatim>\<open>_improvements\<close>: the
  result of \<^verbatim>\<open>_get_residual_diblob_manager_for_cpt\<close>, with the transient fields its
  constructor computed.
\<close>

definition crossed_residual_built :: "string cpt_state" where
  "crossed_residual_built =
     (case get_residual_diblob_manager_for_cpt crossed_graph crossed_assigned
             [''d1'', ''d2''] [''s1'', ''s2''] of
        Inr (rg, rm) \<Rightarrow> rm
      | Inl e \<Rightarrow> init_state crossed_graph)"


text \<open>
  Three nodes on a cycle \<open>a \<rightarrow> b \<rightarrow> c \<rightarrow> a\<close> with the extra edge \<open>(a, c)\<close> and a self loop
  at \<open>c\<close> that costs \<open>-3\<close>: the self loop is a negative cycle, \<open>c\<close> is the deficit
  node and \<open>a\<close> the surplus node.
\<close>

definition negative_loop_graph :: "string digraph" where
  "negative_loop_graph =
     \<lparr>nodes = [''a'', ''b'', ''c''],
      edges = [(''a'', ''b''), (''b'', ''c''), (''c'', ''a''), (''a'', ''c''), (''c'', ''c'')],
      cost_function = [(''c'', ''c'') \<mapsto> - 3], default_cost = 1\<rparr>"

section \<open>Tour and cost on a graph that needs two duplications of one pair\<close>

text \<open>
  C1. The claim: on every strongly connected graph \<^verbatim>\<open>compute_cpt(start_node)\<close> returns a
  closed walk from \<open>start_node\<close> that contains every edge. On \<open>two_unit_graph\<close> from
  \<open>y\<close> the call returns seven edges, all six edges of the graph among them, but the
  sequence ends at \<open>x\<close>: the entry of the pair \<open>(x, y)\<close>, assigned 2, is stored as \<open>-1\<close>
  after its first use, so the second extra traversal from \<open>x\<close> to \<open>y\<close> is never made.
  From \<open>x\<close> the sequence returned is closed, but the edge \<open>(y, x)\<close> is not in it.
\<close>

theorem compute_cpt_two_unit_graph_not_closed:
  "map_option fst (compute_cpt two_unit_graph (init_state two_unit_graph) ''y'') =
     Some (Inr ([(''y'', ''p''), (''p'', ''x''), (''x'', ''y''), (''y'', ''q''),
                 (''q'', ''x''), (''x'', ''y''), (''y'', ''x'')], 7))
   \<and> covers_all_edges two_unit_graph
         [(''y'', ''p''), (''p'', ''x''), (''x'', ''y''), (''y'', ''q''),
          (''q'', ''x''), (''x'', ''y''), (''y'', ''x'')]
   \<and> \<not> is_walk ''y'' [(''y'', ''p''), (''p'', ''x''), (''x'', ''y''), (''y'', ''q''),
                      (''q'', ''x''), (''x'', ''y''), (''y'', ''x'')] ''y''
   \<and> map_option fst (compute_cpt two_unit_graph (init_state two_unit_graph) ''x'') =
     Some (Inr ([(''x'', ''y''), (''y'', ''p''), (''p'', ''x''), (''x'', ''y''),
                 (''y'', ''q''), (''q'', ''x'')], 7))
   \<and> is_walk ''x'' [(''x'', ''y''), (''y'', ''p''), (''p'', ''x''), (''x'', ''y''),
                    (''y'', ''q''), (''q'', ''x'')] ''x''
   \<and> \<not> covers_all_edges two_unit_graph
          [(''x'', ''y''), (''y'', ''p''), (''p'', ''x''), (''x'', ''y''),
           (''y'', ''q''), (''q'', ''x'')]"
  by code_simp

text \<open>
  C2. The claim: the cost returned is the basic cost plus, over the (deficit, surplus)
  pairs, the closure cost of the pair times the duplications finally assigned to it. On
  \<open>two_unit_graph\<close> the only pair is \<open>(x, y)\<close>; when the improvement loop ends the basic
  cost is 6 and the duplications cost \<open>1 * 2\<close>, so the claim gives 8. The call returns 7:
  \<^verbatim>\<open>_get_cost\<close> runs after the extraction has stored \<open>-1\<close> in the entry, and adds
  the closure cost times the negated entry. (7 is the cost of the seven edges returned,
  one traversal short of a tour.)
\<close>

theorem compute_cpt_two_unit_graph_cost:
  "split_nodes_based_on_delta two_unit_graph (init_state two_unit_graph)
     = Inr ([''x''], [''y''])
   \<and> map_option (\<lambda>r. (fst r, basic_cost (snd r), duplication_cost (snd r) [''x''] [''y'']))
        (compute_cpt_assignment two_unit_graph (init_state two_unit_graph))
     = Some (Inr (), 6, 2)
   \<and> map_option (map_sum id snd \<circ> fst)
        (compute_cpt two_unit_graph (init_state two_unit_graph) ''y'')
     = Some (Inr 7)
   \<and> walk_cost two_unit_graph
        [(''y'', ''p''), (''p'', ''x''), (''x'', ''y''), (''y'', ''q''),
         (''q'', ''x''), (''x'', ''y''), (''y'', ''x'')] = 7"
  by code_simp

text \<open>
  C8. The claim: serving a pending duplication from \<open>u\<close> to \<open>v\<close> decreases the entry of
  \<open>(u, v)\<close> by one and appends the spanning-tree path from \<open>u\<close> to \<open>v\<close>. On
  \<open>two_unit_graph\<close> the entry of \<open>(x, y)\<close> is 2 when the extraction starts; the extraction
  from \<open>y\<close> serves it once (the third edge of the tour) and leaves \<open>-1\<close> in it, not 1.
\<close>

theorem get_cpt_two_unit_graph_entry:
  "map_option (\<lambda>r. (fst r, feasible (snd r) (''x'', ''y'')))
     (compute_cpt_assignment two_unit_graph (init_state two_unit_graph))
     = Some (Inr (), Some 2)
   \<and> map_option (\<lambda>r. (fst r, feasible (snd r) (''x'', ''y'')))
        (get_cpt two_unit_graph
           (snd (the (compute_cpt_assignment two_unit_graph (init_state two_unit_graph))))
           ''y'')
     = Some (Inr [(''y'', ''p''), (''p'', ''x''), (''x'', ''y''), (''y'', ''q''),
                  (''q'', ''x''), (''x'', ''y''), (''y'', ''x'')], Some (- 1))"
  by code_simp

section \<open>The inner loop of the closure computation, step by step\<close>

lemma lcp_j_fields:
  "lcp_j m k i js = (r, m') \<Longrightarrow>
     feasible m' = feasible m \<and> delta m' = delta m \<and> basic_cost m' = basic_cost m"
  by (induction js arbitrary: m)
     (auto split: option.splits if_splits sum.splits bool.splits simp: Let_def)

lemma lcp_j_no_scg: "fst (lcp_j m k i js) \<noteq> Inl NotSCGException"
  by (induction js arbitrary: m)
     (auto split: option.splits if_splits sum.splits bool.splits simp: Let_def)

lemma lcp_j_Cons_None:
  "cost m (k, j) = None \<Longrightarrow> lcp_j m k i (j # js) = lcp_j m k i js"
  by simp

text \<open>
  Inside the guard \<^verbatim>\<open>if (node_i, node_k) in cost\<close> the entry of \<open>(i, k)\<close> exists, and one
  pass of the loop reads as follows.
\<close>

lemma lcp_j_Cons:
  assumes "cost m (i, k) = Some cik"
  shows "lcp_j m k i (j # js) =
     (case cost m (k, j) of
        None \<Rightarrow> lcp_j m k i js
      | Some ckj \<Rightarrow>
          if (case cost m (i, j) of None \<Rightarrow> True | Some cij \<Rightarrow> cij > cik + ckj)
          then (case spanning_tree m (i, k) of
                  None \<Rightarrow> (Inl KeyError, m)
                | Some t \<Rightarrow>
                    let m' = m\<lparr>spanning_tree := (spanning_tree m)((i, j) \<mapsto> t),
                               cost := (cost m)((i, j) \<mapsto> cik + ckj)\<rparr>
                    in if i = j \<and> cik + ckj < 0 then (Inr True, m')
                       else lcp_j m' k i js)
          else lcp_j m k i js)"
proof (cases "cost m (k, j)")
  case None
  then show ?thesis by simp
next
  case ckj: (Some ckj)
  have g: "get_or (cost m) (i, k) 0 = cik" "get_or (cost m) (k, j) 0 = ckj"
    using assms ckj by (simp_all add: get_or_def)
  show ?thesis
  proof (cases "cost m (i, j)")
    case None
    show ?thesis
      by (simp only: lcp_j.simps ckj None g option.case sum.case bool.case if_True Let_def)
  next
    case (Some cij)
    show ?thesis
    proof (cases "cij > cik + ckj")
      case True
      then show ?thesis
        by (simp only: lcp_j.simps ckj Some assms g option.case sum.case bool.case if_True
              Let_def)
    next
      case False
      then show ?thesis
        by (simp only: lcp_j.simps ckj Some assms g option.case sum.case bool.case if_False
              Let_def)
    qed
  qed
qed

declare lcp_j.simps(2) [simp del]

section \<open>Connectivity check, raise and reset\<close>

subsection \<open>The closure computation touches only the cost map and the spanning tree\<close>

lemma lcp_ki_fields:
  "lcp_ki ns m kis = (r, m') \<Longrightarrow>
     feasible m' = feasible m \<and> delta m' = delta m \<and> basic_cost m' = basic_cost m"
proof (induction kis arbitrary: m)
  case Nil
  then show ?case by simp
next
  case (Cons ki kis)
  obtain k i where ki: "ki = (k, i)" by (cases ki)
  obtain r1 m1 where j: "lcp_j m k i ns = (r1, m1)" by (cases "lcp_j m k i ns")
  from lcp_j_fields[OF j] Cons show ?case
    by (auto simp: ki j split: if_splits sum.splits bool.splits)
qed

lemma lcp_ki_no_scg: "fst (lcp_ki ns m kis) \<noteq> Inl NotSCGException"
proof (induction kis arbitrary: m)
  case Nil
  then show ?case by simp
next
  case (Cons ki kis)
  obtain k i where ki: "ki = (k, i)" by (cases ki)
  obtain r1 m1 where j: "lcp_j m k i ns = (r1, m1)" by (cases "lcp_j m k i ns")
  from lcp_j_no_scg[of m k i ns] Cons show ?case
    by (auto simp: ki j split: if_splits sum.splits bool.splits)
qed

lemma least_cost_paths_fields:
  "least_cost_paths g m = (r, m') \<Longrightarrow>
     feasible m' = feasible m \<and> delta m' = delta m \<and> basic_cost m' = basic_cost m"
  unfolding least_cost_paths_def by (rule lcp_ki_fields)

lemma check_no_scg:
  "fst (check_if_digraph_is_strongly_connected g m) \<noteq> Inl NotSCGException"
  using lcp_ki_no_scg[of "nodes g" m "List.product (nodes g) (nodes g)"]
  by (auto simp: check_if_digraph_is_strongly_connected_def least_cost_paths_def
           split: prod.splits sum.splits)

lemma check_state:
  "snd (check_if_digraph_is_strongly_connected g m) = snd (least_cost_paths g m)"
  by (auto simp: check_if_digraph_is_strongly_connected_def split: prod.splits sum.splits)

subsection \<open>Only the connectivity check raises \<open>NotSCGException\<close>\<close>

lemma split_loop_no_scg: "split_loop d ns a b \<noteq> Inl NotSCGException"
  by (induction ns arbitrary: a b) (auto split: option.splits)

lemma find_feasible_loop_no_scg: "fst (find_feasible_loop m ps) \<noteq> Inl NotSCGException"
proof (induction ps arbitrary: m)
  case Nil
  then show ?case by simp
next
  case (Cons p ps)
  obtain a b where p: "p = (a, b)" by (cases p)
  show ?case using Cons
    by (simp add: p Let_def split: option.splits)
qed

lemma residual_loop_no_scg: "residual_loop c f ps rd rc \<noteq> Inl NotSCGException"
proof (induction ps arbitrary: rd rc)
  case Nil
  then show ?case by simp
next
  case (Cons p ps)
  obtain a b where p: "p = (a, b)" by (cases p)
  show ?case using Cons
    by (simp add: p Let_def split: option.splits)
qed

lemma get_residual_no_scg:
  "get_residual_diblob_manager_for_cpt g m dn dp \<noteq> Inl NotSCGException"
  using residual_loop_no_scg
  by (fastforce simp: get_residual_diblob_manager_for_cpt_def Let_def
                split: sum.splits prod.splits)

lemma find_k_no_scg:
  assumes "find_k rcost rtree f n u k flag = Some r"
  shows "r \<noteq> Inl NotSCGException"
  by (rule find_k.raw_induct[where P = "\<lambda>_ _ _ _ _ _ _ r. r \<noteq> Inl NotSCGException", OF _ assms])
     (auto split: option.splits if_splits)

lemma cancel_k_no_scg:
  assumes "cancel_k rcost rtree n u k f = Some r"
  shows "fst r \<noteq> Inl NotSCGException"
  by (rule cancel_k.raw_induct[where P = "\<lambda>_ _ _ _ _ _ r. fst r \<noteq> Inl NotSCGException", OF _ assms])
     (auto split: option.splits if_splits simp: Let_def)

lemma improvements_loop_no_scg:
  "improvements_loop rcost rtree m ns = Some r \<Longrightarrow> fst r \<noteq> Inl NotSCGException"
proof (induction ns)
  case Nil
  then show ?case by auto
next
  case (Cons n ns)
  then show ?case
    by (auto split: if_splits option.splits sum.splits prod.splits
             dest: find_k_no_scg cancel_k_no_scg)
qed

lemma improve_loop_no_scg:
  assumes "improve_loop g dn dp m = Some r"
  shows "fst r \<noteq> Inl NotSCGException"
proof (rule improve_loop.raw_induct[where P = "\<lambda>_ _ _ _ r. fst r \<noteq> Inl NotSCGException", OF _ assms])
  fix il :: "'a digraph \<Rightarrow> 'a list \<Rightarrow> 'a list \<Rightarrow> 'a cpt_state \<Rightarrow> ((error + unit) \<times> 'a cpt_state) option"
  fix g dn dp m r
  assume "\<And>g dn dp m r. il g dn dp m = Some r \<Longrightarrow> fst r \<noteq> Inl NotSCGException"
    and "(case get_residual_diblob_manager_for_cpt g m dn dp of
        Inl e \<Rightarrow> Some (Inl e, m)
      | Inr (rg, residual_cpt) \<Rightarrow>
          (case improvements g m residual_cpt of
             None \<Rightarrow> None
           | Some (Inl e, m') \<Rightarrow> Some (Inl e, m')
           | Some (Inr improved, m') \<Rightarrow>
               if improved then il g dn dp m'
               else Some (Inr (), m'))) = Some r"
  then show "fst r \<noteq> Inl NotSCGException"
    using get_residual_no_scg[of g m dn dp]
    by (auto split: sum.splits prod.splits option.splits if_splits
             simp: improvements_def dest: improvements_loop_no_scg)
qed

lemma walk_path_no_scg:
  assumes "walk_path tree u v cpt = Some r"
  shows "r \<noteq> Inl NotSCGException"
  by (rule walk_path.raw_induct[where P = "\<lambda>_ _ _ _ r. r \<noteq> Inl NotSCGException", OF _ assms])
     (auto split: option.splits if_splits)

lemma get_cpt_loop_no_scg:
  assumes "get_cpt_loop g tree s v f proc cpt = Some r"
  shows "fst r \<noteq> Inl NotSCGException"
  by (rule get_cpt_loop.raw_induct[where P = "\<lambda>_ _ _ _ _ _ _ r. fst r \<noteq> Inl NotSCGException", OF _ assms])
     (auto split: sum.splits prod.splits option.splits if_splits
             simp: Let_def dest: walk_path_no_scg)

lemma get_cpt_no_scg:
  "get_cpt g m s = Some r \<Longrightarrow> fst r \<noteq> Inl NotSCGException"
  by (auto simp: get_cpt_def split: option.splits prod.splits dest: get_cpt_loop_no_scg)

lemma compute_cpt_assignment_scg:
  assumes "compute_cpt_assignment g m = Some (Inl NotSCGException, m')"
  shows "check_if_digraph_is_strongly_connected g m = (Inr False, m')"
proof -
  obtain r1 m1 where c: "check_if_digraph_is_strongly_connected g m = (r1, m1)"
    by (cases "check_if_digraph_is_strongly_connected g m")
  show ?thesis
  proof (cases r1)
    case (Inl e)
    with assms c check_no_scg[of g m] show ?thesis
      by (auto simp: compute_cpt_assignment_def)
  next
    case (Inr b)
    show ?thesis
    proof (cases b)
      case False
      with assms c Inr show ?thesis by (auto simp: compute_cpt_assignment_def)
    next
      case True
      obtain r2 where s: "split_nodes_based_on_delta g m1 = r2" by simp
      show ?thesis
      proof (cases r2)
        case (Inl e)
        with assms c \<open>r1 = Inr b\<close> True s split_loop_no_scg[of "delta m1" "nodes g" "[]" "[]"]
        show ?thesis
          by (auto simp: compute_cpt_assignment_def split_nodes_based_on_delta_def)
      next
        case (Inr dnp)
        obtain dn dp where dnp: "dnp = (dn, dp)" by (cases dnp)
        obtain r3 m2 where f: "find_feasible m1 dn dp = (r3, m2)"
          by (cases "find_feasible m1 dn dp")
        from assms c \<open>r1 = Inr b\<close> True s Inr dnp f
          find_feasible_loop_no_scg[of m1 "List.product dn dp"]
          improve_loop_no_scg[of g dn dp m2 "(Inl NotSCGException, m')"]
        show ?thesis
          by (auto simp: compute_cpt_assignment_def find_feasible_def split: sum.splits)
      qed
    qed
  qed
qed

lemma compute_cpt_scg:
  assumes "compute_cpt g m s = Some (Inl NotSCGException, m')"
  shows "check_if_digraph_is_strongly_connected g m = (Inr False, m')"
proof -
  from assms obtain r3 m3 where a: "compute_cpt_assignment g m = Some (r3, m3)"
    by (auto simp: compute_cpt_def split: option.splits)
  show ?thesis
  proof (cases r3)
    case (Inl e)
    with assms a have "e = NotSCGException" "m3 = m'"
      by (auto simp: compute_cpt_def)
    with a Inl show ?thesis by (auto intro: compute_cpt_assignment_scg)
  next
    case (Inr u)
    with assms a get_cpt_no_scg[of g m3 s] show ?thesis
      by (auto simp: compute_cpt_def split: option.splits sum.splits)
  qed
qed

lemma compute_cpt_raise:
  "fst (check_if_digraph_is_strongly_connected g m) = Inr False \<Longrightarrow>
     compute_cpt g m s = Some (Inl NotSCGException, snd (least_cost_paths g m))"
  using check_state[of g m]
  by (cases "check_if_digraph_is_strongly_connected g m")
     (auto simp: compute_cpt_def compute_cpt_assignment_def)

lemma compute_cpt_return:
  "map_option fst (compute_cpt g m s) = Some (Inr r) \<Longrightarrow>
     compute_cpt g m s = Some (Inr r, init_state g)"
  by (auto simp: compute_cpt_def split: option.splits sum.splits prod.splits)


lemma path_graph_not_strongly_connected: "\<not> strongly_connected path_graph"
proof -
  have "(''c'', ''a'') \<notin> (set (edges path_graph))\<^sup>*"
  proof
    assume "(''c'', ''a'') \<in> (set (edges path_graph))\<^sup>*"
    then show False
      by (cases rule: converse_rtranclE) (auto simp: path_graph_def)
  qed
  then show ?thesis
    by (auto simp: strongly_connected_def path_graph_def)
qed


subsection \<open>Soundness of the closure\<close>

lemma closure_sound_init_state: "closure_sound g (init_state g)"
  by (auto simp: closure_sound_def init_state_def set_cost_def set_spanning_tree_def
           split: if_splits)

lemma lcp_j_sound:
  assumes "closure_sound g m" and "cost m (i, k) \<noteq> None" and "lcp_j m k i js = (r, m')"
  shows "closure_sound g m' \<and> (\<forall>e. r \<noteq> Inl e) \<and> (\<forall>e. cost m e \<noteq> None \<longrightarrow> cost m' e \<noteq> None)"
  using assms
proof (induction js arbitrary: m)
  case Nil
  then show ?case by auto
next
  case (Cons j js)
  from Cons.prems(2) obtain cik where cik: "cost m (i, k) = Some cik" by auto
  show ?case
  proof (cases "cost m (k, j)")
    case None
    with Cons show ?thesis by (simp add: lcp_j_Cons_None)
  next
    case (Some ckj)
    show ?thesis
    proof (cases "case cost m (i, j) of None \<Rightarrow> True | Some cij \<Rightarrow> cij > cik + ckj")
      case False
      with Cons Some cik show ?thesis by (simp add: lcp_j_Cons[OF cik])
    next
      case True
      from Cons.prems(1) cik obtain t where t: "spanning_tree m (i, k) = Some t"
        by (auto simp: closure_sound_def)
      define m1 where "m1 = m\<lparr>spanning_tree := (spanning_tree m)((i, j) \<mapsto> t),
                                    cost := (cost m)((i, j) \<mapsto> cik + ckj)\<rparr>"
      have unf: "lcp_j m k i (j # js)
                   = (if i = j \<and> cik + ckj < 0 then (Inr True, m1) else lcp_j m1 k i js)"
        using Some True t by (simp add: lcp_j_Cons[OF cik] m1_def Let_def)
      from Cons.prems(1) cik Some have "(i, k) \<in> (set (edges g))\<^sup>+" "(k, j) \<in> (set (edges g))\<^sup>+"
        by (auto simp: closure_sound_def)
      then have ij: "(i, j) \<in> (set (edges g))\<^sup>+" by (rule trancl_trans)
      have s1: "closure_sound g m1"
        using Cons.prems(1) ij by (auto simp: closure_sound_def m1_def)
      have k1: "cost m1 (i, k) \<noteq> None" using cik by (auto simp: m1_def)
      have mono: "\<forall>e. cost m e \<noteq> None \<longrightarrow> cost m1 e \<noteq> None" by (auto simp: m1_def)
      show ?thesis
      proof (cases "i = j \<and> cik + ckj < 0")
        case stop: True
        with Cons.prems(3)[unfolded unf] have "r = Inr True" "m' = m1"
          by simp_all
        with s1 mono show ?thesis by auto
      next
        case go: False
        with Cons.prems(3)[unfolded unf] have "lcp_j m1 k i js = (r, m')"
          by simp
        from Cons.IH[OF s1 k1 this] mono show ?thesis by auto
      qed
    qed
  qed
qed

lemma lcp_ki_sound:
  assumes "closure_sound g m" and "lcp_ki ns m kis = (r, m')"
  shows "closure_sound g m' \<and> (\<forall>e. r \<noteq> Inl e)"
  using assms
proof (induction kis arbitrary: m)
  case Nil
  then show ?case by auto
next
  case (Cons ki kis)
  obtain k i where ki: "ki = (k, i)" by (cases ki)
  show ?case
  proof (cases "cost m (i, k) \<noteq> None")
    case False
    with Cons ki show ?thesis by simp
  next
    case True
    obtain r1 m1 where j: "lcp_j m k i ns = (r1, m1)" by (cases "lcp_j m k i ns")
    from lcp_j_sound[OF Cons.prems(1) True j]
    have s1: "closure_sound g m1" and r1: "\<forall>e. r1 \<noteq> Inl e" by auto
    from r1 obtain b where b: "r1 = Inr b" by (cases r1) auto
    show ?thesis
    proof (cases b)
      case True
      with Cons.prems(2) ki \<open>cost m (i, k) \<noteq> None\<close> j b s1 show ?thesis by auto
    next
      case False
      with Cons.prems(2) ki \<open>cost m (i, k) \<noteq> None\<close> j b
      have "lcp_ki ns m1 kis = (r, m')" by auto
      from Cons.IH[OF s1 this] show ?thesis .
    qed
  qed
qed

lemma check_sound:
  assumes "closure_sound g m"
  shows "\<exists>b. check_if_digraph_is_strongly_connected g m = (Inr b, snd (least_cost_paths g m))
           \<and> (b \<longrightarrow> (\<forall>u \<in> set (nodes g). \<forall>v \<in> set (nodes g). (u, v) \<in> (set (edges g))\<^sup>+))"
proof -
  obtain r m' where l: "least_cost_paths g m = (r, m')" by (cases "least_cost_paths g m")
  from lcp_ki_sound[OF assms l[unfolded least_cost_paths_def]]
  have s: "closure_sound g m'" and r: "\<forall>e. r \<noteq> Inl e" by auto
  from r obtain b where b: "r = Inr b" by (cases r) auto
  let ?b = "list_all (\<lambda>th. cost m' th \<noteq> None) (List.product (nodes g) (nodes g))"
  have "check_if_digraph_is_strongly_connected g m = (Inr ?b, m')"
    by (simp add: check_if_digraph_is_strongly_connected_def l b)
  moreover have "?b \<longrightarrow> (\<forall>u \<in> set (nodes g). \<forall>v \<in> set (nodes g). (u, v) \<in> (set (edges g))\<^sup>+)"
    using s by (auto simp: list_all_iff closure_sound_def)
  ultimately show ?thesis using l by auto
qed

text \<open>
  The graph of the first section is strongly connected: the connectivity check succeeds
  on it, and the closure is sound.
\<close>

lemma two_unit_graph_strongly_connected: "strongly_connected two_unit_graph"
proof -
  have "fst (check_if_digraph_is_strongly_connected two_unit_graph (init_state two_unit_graph))
          = Inr True"
    by code_simp
  with check_sound[OF closure_sound_init_state, of two_unit_graph]
  have "\<forall>u \<in> set (nodes two_unit_graph). \<forall>v \<in> set (nodes two_unit_graph).
          (u, v) \<in> (set (edges two_unit_graph))\<^sup>+"
    by auto
  then show ?thesis
    unfolding strongly_connected_def by (blast intro: trancl_into_rtrancl)
qed

text \<open>
  C3. On a graph that is not strongly connected \<^verbatim>\<open>compute_cpt\<close> raises
  \<^verbatim>\<open>NotSCGException\<close> straight after the closure computation of the connectivity
  check: the fields it leaves are those the closure computation leaves, so the feasible
  assignment has received no entry and the imbalances are untouched (no assignment or
  improvement step has run).
\<close>

theorem compute_cpt_not_strongly_connected:
  assumes "\<not> strongly_connected g" and "closure_sound g m"
  shows "compute_cpt g m s = Some (Inl NotSCGException, snd (least_cost_paths g m))
         \<and> feasible (snd (least_cost_paths g m)) = feasible m
         \<and> delta (snd (least_cost_paths g m)) = delta m"
proof -
  from check_sound[OF assms(2)] obtain b where
    c: "check_if_digraph_is_strongly_connected g m = (Inr b, snd (least_cost_paths g m))"
    and b: "b \<longrightarrow> (\<forall>u \<in> set (nodes g). \<forall>v \<in> set (nodes g). (u, v) \<in> (set (edges g))\<^sup>+)"
    by auto
  from assms(1) obtain u v where "u \<in> set (nodes g)" "v \<in> set (nodes g)"
    "(u, v) \<notin> (set (edges g))\<^sup>*"
    by (auto simp: strongly_connected_def)
  then have "\<not> b" using b by (auto dest: trancl_into_rtrancl)
  with c have "compute_cpt g m s = Some (Inl NotSCGException, snd (least_cost_paths g m))"
    by (simp add: compute_cpt_def compute_cpt_assignment_def)
  moreover have "feasible (snd (least_cost_paths g m)) = feasible m
         \<and> delta (snd (least_cost_paths g m)) = delta m"
    using least_cost_paths_fields[of g m] by (cases "least_cost_paths g m") auto
  ultimately show ?thesis by simp
qed

theorem compute_cpt_not_strongly_connected_witness:
  "\<not> strongly_connected path_graph
   \<and> compute_cpt path_graph (init_state path_graph) ''a''
       = Some (Inl NotSCGException, snd (least_cost_paths path_graph (init_state path_graph)))
   \<and> feasible (snd (least_cost_paths path_graph (init_state path_graph))) = Map.empty
   \<and> delta (snd (least_cost_paths path_graph (init_state path_graph))) = set_delta path_graph"
  using compute_cpt_not_strongly_connected[OF path_graph_not_strongly_connected
          closure_sound_init_state, of "''a''"]
    path_graph_not_strongly_connected
  by (simp add: init_state_def)


text \<open>
  C10. When \<^verbatim>\<open>compute_cpt\<close> raises \<^verbatim>\<open>NotSCGException\<close>, the feasible assignment is
  as before the call, and the cost map and the spanning tree (with the other fields) are
  those the closure computation of the connectivity check produced: they are not reset.
\<close>

theorem compute_cpt_raise_leaves_closure:
  assumes "compute_cpt g m s = Some (Inl NotSCGException, m')"
  shows "m' = snd (least_cost_paths g m) \<and> feasible m' = feasible m"
proof -
  from compute_cpt_scg[OF assms] check_state[of g m]
  have "m' = snd (least_cost_paths g m)" by simp
  then show ?thesis
    using least_cost_paths_fields[of g m] by (cases "least_cost_paths g m") auto
qed

theorem compute_cpt_raise_leaves_closure_witness:
  "compute_cpt path_graph (init_state path_graph) ''a''
     = Some (Inl NotSCGException, snd (least_cost_paths path_graph (init_state path_graph)))
   \<and> feasible (snd (least_cost_paths path_graph (init_state path_graph))) = Map.empty
   \<and> cost (snd (least_cost_paths path_graph (init_state path_graph))) (''a'', ''c'') = Some 2
   \<and> spanning_tree (snd (least_cost_paths path_graph (init_state path_graph))) (''a'', ''c'')
       = Some ''b''
   \<and> cost (init_state path_graph) (''a'', ''c'') = None"
proof -
  have "fst (check_if_digraph_is_strongly_connected path_graph (init_state path_graph))
          = Inr False"
    by code_simp
  then have r: "compute_cpt path_graph (init_state path_graph) ''a''
     = Some (Inl NotSCGException, snd (least_cost_paths path_graph (init_state path_graph)))"
    by (rule compute_cpt_raise)
  have c: "cost (snd (least_cost_paths path_graph (init_state path_graph))) (''a'', ''c'') = Some 2"
    by code_simp
  have t: "spanning_tree (snd (least_cost_paths path_graph (init_state path_graph))) (''a'', ''c'')
       = Some ''b''"
    by code_simp
  have n: "cost (init_state path_graph) (''a'', ''c'') = None"
    by code_simp
  from compute_cpt_raise_leaves_closure[OF r] r c t n show ?thesis
    by (simp add: init_state_def)
qed


section \<open>The residual manager\<close>

lemma connect_nodes_simps:
  "nodes (connect_nodes e rd) = nodes rd"
  "set (edges (connect_nodes e rd)) = insert e (set (edges rd))"
  by (auto simp: connect_nodes_def)

lemma residual_loop_result:
  assumes "\<forall>p \<in> set ps. c p \<noteq> None \<and> f p \<noteq> None"
    and "\<forall>(a, b) \<in> set ps. (b, a) \<notin> set ps"
  shows "\<exists>rd' rc'. residual_loop c f ps rd rc = Inr (rd', rc')
           \<and> nodes rd' = nodes rd
           \<and> set (edges rd') = set (edges rd) \<union> set ps
                \<union> {(b, a) | a b. (a, b) \<in> set ps \<and> f (a, b) \<noteq> Some 0}
           \<and> (\<forall>p \<in> set ps. rc' p = c p)
           \<and> (\<forall>(a, b) \<in> set ps. f (a, b) \<noteq> Some 0 \<longrightarrow> rc' (b, a) = Some (- the (c (a, b))))
           \<and> (\<forall>x y. (x, y) \<notin> set ps \<and> (y, x) \<notin> set ps \<longrightarrow> rc' (x, y) = rc (x, y))"
  using assms
proof (induction ps arbitrary: rd rc)
  case Nil
  then show ?case by simp
next
  case (Cons p ps)
  obtain a b where p: "p = (a, b)" by (cases p)
  from Cons.prems(1) p obtain cab fab where cab: "c (a, b) = Some cab" and fab: "f (a, b) = Some fab"
    by auto
  have ps1: "\<forall>p \<in> set ps. c p \<noteq> None \<and> f p \<noteq> None" using Cons.prems(1) by simp
  have ps2: "\<forall>(a, b) \<in> set ps. (b, a) \<notin> set ps" using Cons.prems(2) by auto
  have ba: "(b, a) \<notin> set ps" "(b, a) \<noteq> (a, b)" using Cons.prems(2) p by auto
  define rd2 where
    "rd2 = (if fab \<noteq> 0 then connect_nodes (b, a) (connect_nodes (a, b) rd)
            else connect_nodes (a, b) rd)"
  define rc2 where
    "rc2 = (if fab \<noteq> 0 then rc((a, b) \<mapsto> cab, (b, a) \<mapsto> - cab) else rc((a, b) \<mapsto> cab))"
  have step: "residual_loop c f (p # ps) rd rc = residual_loop c f ps rd2 rc2"
    by (simp add: p cab fab rd2_def rc2_def Let_def)
  from Cons.IH[OF ps1 ps2, of rd2 rc2] obtain rd' rc' where
    r: "residual_loop c f ps rd2 rc2 = Inr (rd', rc')"
    and n: "nodes rd' = nodes rd2"
    and e: "set (edges rd') = set (edges rd2) \<union> set ps
                \<union> {(b, a) | a b. (a, b) \<in> set ps \<and> f (a, b) \<noteq> Some 0}"
    and fw: "\<forall>p \<in> set ps. rc' p = c p"
    and bw: "\<forall>(a, b) \<in> set ps. f (a, b) \<noteq> Some 0 \<longrightarrow> rc' (b, a) = Some (- the (c (a, b)))"
    and keep: "\<forall>x y. (x, y) \<notin> set ps \<and> (y, x) \<notin> set ps \<longrightarrow> rc' (x, y) = rc2 (x, y)"
    by blast
  have n': "nodes rd' = nodes rd"
    using n by (simp add: rd2_def connect_nodes_simps)
  have e': "set (edges rd') = set (edges rd) \<union> set (p # ps)
                \<union> {(b, a) | a b. (a, b) \<in> set (p # ps) \<and> f (a, b) \<noteq> Some 0}"
    using e by (auto simp: rd2_def connect_nodes_simps p fab)
  have fw': "\<forall>q \<in> set (p # ps). rc' q = c q"
  proof
    fix q assume q: "q \<in> set (p # ps)"
    show "rc' q = c q"
    proof (cases "q \<in> set ps")
      case True
      with fw show ?thesis by simp
    next
      case False
      with q have "q = (a, b)" by (simp add: p)
      with False ba keep have "rc' q = rc2 (a, b)" by blast
      with ba \<open>q = (a, b)\<close> show ?thesis by (simp add: rc2_def cab)
    qed
  qed
  have bw': "\<forall>(x, y) \<in> set (p # ps). f (x, y) \<noteq> Some 0 \<longrightarrow> rc' (y, x) = Some (- the (c (x, y)))"
  proof (clarify)
    fix x y assume xy: "(x, y) \<in> set (p # ps)" and nz: "f (x, y) \<noteq> Some 0"
    show "rc' (y, x) = Some (- the (c (x, y)))"
    proof (cases "(x, y) \<in> set ps")
      case True
      with bw nz show ?thesis by blast
    next
      case False
      with xy have eq: "x = a" "y = b" by (auto simp: p)
      with False ba keep have "rc' (y, x) = rc2 (b, a)" by blast
      with nz eq fab show ?thesis by (simp add: rc2_def cab)
    qed
  qed
  have keep': "\<forall>x y. (x, y) \<notin> set (p # ps) \<and> (y, x) \<notin> set (p # ps) \<longrightarrow> rc' (x, y) = rc (x, y)"
    using keep by (auto simp: p rc2_def)
  from step r n' e' fw' bw' keep' show ?case by simp
qed

text \<open>
  C6, amended: the residual manager built from disjoint deficit and surplus lists has the
  nodes of the graph it is built for; its edges are exactly a forward edge for every
  (deficit, surplus) pair and the reverse edge of the pairs whose assignment is not 0;
  the forward edge costs the closure cost of the pair and the reverse edge its negation.
  (The lookups \<^verbatim>\<open>cost[...]\<close> and \<^verbatim>\<open>feasible[...]\<close> must succeed, as they do after the
  connectivity check and the feasible assignment.)
\<close>

theorem residual_manager_nodes_and_edges:
  assumes "set delta_neq \<inter> set delta_pos = {}"
    and "\<forall>d \<in> set delta_neq. \<forall>s \<in> set delta_pos. cost m (d, s) \<noteq> None \<and> feasible m (d, s) \<noteq> None"
  shows "\<exists>rg rm. get_residual_diblob_manager_for_cpt g m delta_neq delta_pos = Inr (rg, rm)
           \<and> set (nodes rg) = set (nodes g)
           \<and> set (edges rg) = set delta_neq \<times> set delta_pos
                \<union> {(s, d) | d s. d \<in> set delta_neq \<and> s \<in> set delta_pos \<and> feasible m (d, s) \<noteq> Some 0}
           \<and> (\<forall>d \<in> set delta_neq. \<forall>s \<in> set delta_pos.
                 (d, s) \<in> set (edges rg) \<and> cost rm (d, s) = cost m (d, s)
                 \<and> ((s, d) \<in> set (edges rg) \<longleftrightarrow> feasible m (d, s) \<noteq> Some 0)
                 \<and> (feasible m (d, s) \<noteq> Some 0 \<longrightarrow>
                      cost rm (s, d) = Some (- the (cost m (d, s)))))"
proof -
  let ?ps = "List.product delta_neq delta_pos"
  let ?rd0 = "add_nodes (nodes g)
                \<lparr>nodes = [], edges = [], cost_function = Map.empty,
                 default_cost = default_cost g\<rparr>"
  have 1: "\<forall>p \<in> set ?ps. cost m p \<noteq> None \<and> feasible m p \<noteq> None" using assms(2) by auto
  have 2: "\<forall>(a, b) \<in> set ?ps. (b, a) \<notin> set ?ps" using assms(1) by auto
  from residual_loop_result[OF 1 2, of ?rd0 Map.empty] obtain rd' rc' where
    r: "residual_loop (cost m) (feasible m) ?ps ?rd0 Map.empty = Inr (rd', rc')"
    and n: "nodes rd' = nodes ?rd0"
    and e: "set (edges rd') = set (edges ?rd0) \<union> set ?ps
                \<union> {(b, a) | a b. (a, b) \<in> set ?ps \<and> feasible m (a, b) \<noteq> Some 0}"
    and fw: "\<forall>p \<in> set ?ps. rc' p = cost m p"
    and bw: "\<forall>(a, b) \<in> set ?ps. feasible m (a, b) \<noteq> Some 0 \<longrightarrow> rc' (b, a) = Some (- the (cost m (a, b)))"
    by blast
  define rg where "rg = rd'\<lparr>cost_function := rc'\<rparr>"
  have res: "get_residual_diblob_manager_for_cpt g m delta_neq delta_pos = Inr (rg, init_state rg)"
    by (simp add: get_residual_diblob_manager_for_cpt_def r rg_def Let_def)
  have nodes: "set (nodes rg) = set (nodes g)"
    using n by (auto simp: rg_def add_nodes_def)
  have edges: "set (edges rg) = set delta_neq \<times> set delta_pos
                \<union> {(s, d) | d s. d \<in> set delta_neq \<and> s \<in> set delta_pos \<and> feasible m (d, s) \<noteq> Some 0}"
    using e by (auto simp: rg_def add_nodes_def)
  have rest: "\<forall>d \<in> set delta_neq. \<forall>s \<in> set delta_pos.
                 (d, s) \<in> set (edges rg) \<and> cost (init_state rg) (d, s) = cost m (d, s)
                 \<and> ((s, d) \<in> set (edges rg) \<longleftrightarrow> feasible m (d, s) \<noteq> Some 0)
                 \<and> (feasible m (d, s) \<noteq> Some 0 \<longrightarrow>
                      cost (init_state rg) (s, d) = Some (- the (cost m (d, s))))"
  proof (intro ballI)
    fix d s assume d: "d \<in> set delta_neq" and s: "s \<in> set delta_pos"
    then have in_ps: "(d, s) \<in> set ?ps" by simp
    have fwd: "(d, s) \<in> set (edges rg)" using edges d s by auto
    have "rc' (d, s) = cost m (d, s)" using fw in_ps by blast
    moreover obtain c where c: "cost m (d, s) = Some c" using assms(2) d s by auto
    ultimately have cf: "cost (init_state rg) (d, s) = cost m (d, s)"
      using fwd by (simp add: init_state_def set_cost_def get_or_def rg_def)
    have iff: "(s, d) \<in> set (edges rg) \<longleftrightarrow> feasible m (d, s) \<noteq> Some 0"
      using edges d s assms(1) by auto
    have rev: "feasible m (d, s) \<noteq> Some 0 \<longrightarrow>
                 cost (init_state rg) (s, d) = Some (- the (cost m (d, s)))"
    proof
      assume nz: "feasible m (d, s) \<noteq> Some 0"
      with bw in_ps have "rc' (s, d) = Some (- the (cost m (d, s)))" by blast
      with iff nz show "cost (init_state rg) (s, d) = Some (- the (cost m (d, s)))"
        by (simp add: init_state_def set_cost_def get_or_def rg_def)
    qed
    from fwd cf iff rev show "(d, s) \<in> set (edges rg) \<and> cost (init_state rg) (d, s) = cost m (d, s)
                 \<and> ((s, d) \<in> set (edges rg) \<longleftrightarrow> feasible m (d, s) \<noteq> Some 0)
                 \<and> (feasible m (d, s) \<noteq> Some 0 \<longrightarrow>
                      cost (init_state rg) (s, d) = Some (- the (cost m (d, s))))"
      by blast
  qed
  from res nodes edges rest show ?thesis by blast
qed

theorem residual_manager_nodes_and_edges_witness:
  "set [''D''] \<inter> set [''A''] = ({} :: string set)
   \<and> (\<exists>rg rm. get_residual_diblob_manager_for_cpt cpt_test cpt_test_assigned [''D''] [''A'']
                 = Inr (rg, rm)
         \<and> set (nodes rg) = set (nodes cpt_test)
         \<and> (''D'', ''A'') \<in> set (edges rg) \<and> (''A'', ''D'') \<in> set (edges rg)
         \<and> cost rm (''D'', ''A'') = Some 3 \<and> cost rm (''A'', ''D'') = Some (- 3))"
proof -
  have d: "set [''D''] \<inter> set [''A''] = ({} :: string set)" by simp
  have h: "\<forall>d \<in> set [''D'']. \<forall>s \<in> set [''A''].
             cost cpt_test_assigned (d, s) \<noteq> None \<and> feasible cpt_test_assigned (d, s) \<noteq> None"
    by code_simp
  have c: "cost cpt_test_assigned (''D'', ''A'') = Some 3"
    and f: "feasible cpt_test_assigned (''D'', ''A'') = Some 1"
    by code_simp+
  from residual_manager_nodes_and_edges[OF d h, of cpt_test] c f d show ?thesis
    by auto
qed

text \<open>
  C6 as claimed fails on the node set: the residual manager receives every node of the
  graph (\<^verbatim>\<open>residual_digraph.add_nodes(*self.nodes)\<close>), also the balanced ones. On
  \<open>cpt_test\<close> the deficit and surplus nodes are \<open>D\<close> and \<open>A\<close>, the residual manager has all
  six nodes.
\<close>

theorem residual_manager_nodes_counterexample:
  "split_nodes_based_on_delta cpt_test (init_state cpt_test) = Inr ([''D''], [''A''])
   \<and> map_sum id (nodes \<circ> fst)
        (get_residual_diblob_manager_for_cpt cpt_test cpt_test_assigned [''D''] [''A''])
       = Inr [''A'', ''B'', ''C'', ''D'', ''s'', ''t'']
   \<and> set [''A'', ''B'', ''C'', ''D'', ''s'', ''t''] \<noteq> set [''D''] \<union> set [''A'']"
  by code_simp


section \<open>The feasible assignment\<close>

lemma find_feasible_loop_append:
  "find_feasible_loop m (xs @ ys) =
     (case find_feasible_loop m xs of
        (Inr u, m') \<Rightarrow> find_feasible_loop m' ys
      | (Inl e, m') \<Rightarrow> (Inl e, m'))"
proof (induction xs arbitrary: m)
  case Nil
  then show ?case by simp
next
  case (Cons p xs)
  obtain a b where p: "p = (a, b)" by (cases p)
  show ?case using Cons
    by (simp add: p Let_def split: option.splits)
qed

lemma find_feasible_step:
  assumes "delta m a = Some da" and "delta m b = Some db" and "a \<noteq> b"
  shows "find_feasible_loop m ((a, b) # ps) =
           find_feasible_loop
             (m\<lparr>feasible := (feasible m)((a, b) \<mapsto> min (- da) db),
                delta := (delta m)(a \<mapsto> da + min (- da) db, b \<mapsto> db - min (- da) db)\<rparr>) ps"
proof -
  have "(if - da < db then - da else db) = min (- da) db" by (simp add: min_def)
  then show ?thesis using assms by (simp add: Let_def)
qed

lemma feasible_row:
  assumes "imbalance_ok dn dp m" and "d \<in> set dn" and "set ps \<subseteq> set dp" and "distinct ps"
    and "set dn \<inter> set dp = {}"
  shows "\<exists>m'. find_feasible_loop m (map (Pair d) ps) = (Inr (), m') \<and> imbalance_ok dn dp m'
     \<and> (\<forall>x. x \<noteq> d \<and> x \<notin> set ps \<longrightarrow> delta m' x = delta m x)
     \<and> (\<forall>e. e \<notin> Pair d ` set ps \<longrightarrow> feasible m' e = feasible m e)
     \<and> (\<forall>p \<in> set ps. 0 \<le> assigned m' (d, p)
            \<and> delta_of m' p = delta_of m p - assigned m' (d, p))
     \<and> delta_of m' d = delta_of m d + (\<Sum>p\<leftarrow>ps. assigned m' (d, p))
     \<and> (delta_of m' d = 0 \<or> (\<forall>p \<in> set ps. delta_of m' p = 0))"
  using assms(1,3,4)
proof (induction ps arbitrary: m)
  case Nil
  then show ?case by simp
next
  case (Cons p ps)
  from Cons.prems(1) assms(2) obtain da where da: "delta m d = Some da" "da \<le> 0"
    unfolding imbalance_ok_def by blast
  have pp: "p \<in> set dp" using Cons.prems(2) by simp
  with Cons.prems(1) obtain db where db: "delta m p = Some db" "0 \<le> db"
    unfolding imbalance_ok_def by blast
  have dp: "d \<noteq> p" using assms(2,5) pp by blast
  define f where "f = min (- da) db"
  define m1 where "m1 = m\<lparr>feasible := (feasible m)((d, p) \<mapsto> f),
                delta := (delta m)(d \<mapsto> da + f, p \<mapsto> db - f)\<rparr>"
  have d1: "delta m1 = (delta m)(d \<mapsto> da + f, p \<mapsto> db - f)"
    and f1: "feasible m1 = (feasible m)((d, p) \<mapsto> f)"
    by (simp_all add: m1_def)
  have f0: "0 \<le> f" "da + f \<le> 0" "0 \<le> db - f" "da + f = 0 \<or> db - f = 0"
    using da(2) db(2) unfolding f_def min_def by auto
  have step: "find_feasible_loop m (map (Pair d) (p # ps)) = find_feasible_loop m1 (map (Pair d) ps)"
    using find_feasible_step[OF da(1) db(1) dp, of "map (Pair d) ps"]
    unfolding m1_def f_def by simp
  have ok1: "imbalance_ok dn dp m1"
    unfolding imbalance_ok_def
  proof (intro conjI ballI)
    fix x assume x: "x \<in> set dn"
    then have "x \<noteq> p" using assms(5) pp by blast
    show "\<exists>y. delta m1 x = Some y \<and> y \<le> 0"
    proof (cases "x = d")
      case True
      with \<open>x \<noteq> p\<close> f0(2) show ?thesis by (simp add: d1)
    next
      case False
      with \<open>x \<noteq> p\<close> have "delta m1 x = delta m x" by (simp add: d1)
      with Cons.prems(1) x show ?thesis unfolding imbalance_ok_def by simp
    qed
  next
    fix x assume x: "x \<in> set dp"
    then have "x \<noteq> d" using assms(2,5) by blast
    show "\<exists>y. delta m1 x = Some y \<and> 0 \<le> y"
    proof (cases "x = p")
      case True
      with f0(3) show ?thesis by (simp add: d1)
    next
      case False
      with \<open>x \<noteq> d\<close> have "delta m1 x = delta m x" by (simp add: d1)
      with Cons.prems(1) x show ?thesis unfolding imbalance_ok_def by simp
    qed
  qed
  have sub: "set ps \<subseteq> set dp" "distinct ps" "p \<notin> set ps" using Cons.prems(2,3) by simp_all
  from Cons.IH[OF ok1 sub(1,2)] obtain m' where all:
    "find_feasible_loop m1 (map (Pair d) ps) = (Inr (), m') \<and> imbalance_ok dn dp m'
     \<and> (\<forall>x. x \<noteq> d \<and> x \<notin> set ps \<longrightarrow> delta m' x = delta m1 x)
     \<and> (\<forall>e. e \<notin> Pair d ` set ps \<longrightarrow> feasible m' e = feasible m1 e)
     \<and> (\<forall>p \<in> set ps. 0 \<le> assigned m' (d, p)
            \<and> delta_of m' p = delta_of m1 p - assigned m' (d, p))
     \<and> delta_of m' d = delta_of m1 d + (\<Sum>p\<leftarrow>ps. assigned m' (d, p))
     \<and> (delta_of m' d = 0 \<or> (\<forall>p \<in> set ps. delta_of m' p = 0))"
    by (erule exE)
  note r = all[THEN conjunct1]
    and ok = all[THEN conjunct2, THEN conjunct1]
    and a = all[THEN conjunct2, THEN conjunct2, THEN conjunct1]
    and b = all[THEN conjunct2, THEN conjunct2, THEN conjunct2, THEN conjunct1]
    and c = all[THEN conjunct2, THEN conjunct2, THEN conjunct2, THEN conjunct2, THEN conjunct1]
    and s = all[THEN conjunct2, THEN conjunct2, THEN conjunct2, THEN conjunct2, THEN conjunct2,
                THEN conjunct1]
    and e = all[THEN conjunct2, THEN conjunct2, THEN conjunct2, THEN conjunct2, THEN conjunct2,
                THEN conjunct2]
  have "(d, p) \<notin> Pair d ` set ps" using sub(3) by auto
  then have "feasible m' (d, p) = feasible m1 (d, p)" by (rule b[rule_format])
  then have fp: "assigned m' (d, p) = f" by (simp add: get_or_def f1)
  from a sub(3) dp have "delta m' p = delta m1 p" by auto
  then have dp': "delta_of m' p = db - f" by (simp add: get_or_def d1)
  have dm1d: "delta_of m1 d = da + f" using dp by (simp add: get_or_def d1)
  have a': "\<forall>x. x \<noteq> d \<and> x \<notin> set (p # ps) \<longrightarrow> delta m' x = delta m x"
  proof (intro allI impI)
    fix x assume x: "x \<noteq> d \<and> x \<notin> set (p # ps)"
    then have "delta m' x = delta m1 x" using a by simp
    also have "\<dots> = delta m x" using x by (simp add: d1)
    finally show "delta m' x = delta m x" .
  qed
  have b': "\<forall>e. e \<notin> Pair d ` set (p # ps) \<longrightarrow> feasible m' e = feasible m e"
  proof (intro allI impI)
    fix e assume e: "e \<notin> Pair d ` set (p # ps)"
    then have ne: "e \<notin> Pair d ` set ps" "e \<noteq> (d, p)" by auto
    have "feasible m' e = feasible m1 e" by (rule b[rule_format, OF ne(1)])
    also have "\<dots> = feasible m e" using ne(2) by (simp add: f1)
    finally show "feasible m' e = feasible m e" .
  qed
  have c': "\<forall>q \<in> set (p # ps). 0 \<le> assigned m' (d, q)
            \<and> delta_of m' q = delta_of m q - assigned m' (d, q)"
  proof
    fix q assume q: "q \<in> set (p # ps)"
    show "0 \<le> assigned m' (d, q) \<and> delta_of m' q = delta_of m q - assigned m' (d, q)"
    proof (cases "q = p")
      case True
      have "delta_of m p = db" using db(1) by (simp add: get_or_def)
      with True fp dp' f0(1) show ?thesis by simp
    next
      case False
      with q have qs: "q \<in> set ps" by simp
      have "q \<noteq> d" using qs sub(1) assms(2,5) by blast
      then have "delta m1 q = delta m q" using False by (simp add: d1)
      then have "delta_of m1 q = delta_of m q" by (simp add: get_or_def)
      with c qs show ?thesis by simp
    qed
  qed
  have "delta_of m d = da" using da(1) by (simp add: get_or_def)
  then have s': "delta_of m' d = delta_of m d + (\<Sum>q\<leftarrow>p # ps. assigned m' (d, q))"
    using s fp dm1d by simp
  have nonneg: "0 \<le> (\<Sum>q\<leftarrow>ps. assigned m' (d, q))"
    using c by (intro sum_list_nonneg) auto
  from ok assms(2) obtain y where "delta m' d = Some y" "y \<le> 0"
    unfolding imbalance_ok_def by blast
  then have le0: "delta_of m' d \<le> 0" by (simp add: get_or_def)
  have e': "delta_of m' d = 0 \<or> (\<forall>q \<in> set (p # ps). delta_of m' q = 0)"
  proof (cases "da + f = 0")
    case True
    with s dm1d nonneg le0 show ?thesis by simp
  next
    case False
    with f0(4) have "db - f = 0" by simp
    with dp' e show ?thesis by auto
  qed
  have "find_feasible_loop m (map (Pair d) (p # ps)) = (Inr (), m')" using step r by simp
  with ok a' b' c' s' e' show ?case by (intro exI[of _ m'] conjI)
qed

lemma sum_list_map_cong:
  fixes f g :: "'a \<Rightarrow> int"
  assumes "\<forall>x \<in> set xs. f x = g x"
  shows "sum_list (map f xs) = sum_list (map g xs)"
  using assms by (induction xs) simp_all

lemma sum_list_change_one:
  fixes f g :: "'a \<Rightarrow> int"
  assumes "distinct xs" and "x \<in> set xs" and "\<forall>y \<in> set xs. y \<noteq> x \<longrightarrow> f y = g y"
  shows "sum_list (map f xs) = sum_list (map g xs) + (f x - g x)"
  using assms
proof (induction xs)
  case Nil
  then show ?case by simp
next
  case (Cons a xs)
  show ?case
  proof (cases "a = x")
    case True
    with Cons.prems have eq: "\<forall>y \<in> set xs. f y = g y" by auto
    have "sum_list (map f xs) = sum_list (map g xs)" by (rule sum_list_map_cong[OF eq])
    with True show ?thesis by simp
  next
    case False
    with Cons.prems have "x \<in> set xs" "distinct xs" "\<forall>y \<in> set xs. y \<noteq> x \<longrightarrow> f y = g y"
      "f a = g a" by auto
    with Cons.IH show ?thesis by simp
  qed
qed

lemma sum_list_nonneg_zero:
  fixes f :: "'a \<Rightarrow> int"
  assumes "\<forall>x \<in> set xs. 0 \<le> f x" and "sum_list (map f xs) = 0"
  shows "\<forall>x \<in> set xs. f x = 0"
  using assms
proof (induction xs)
  case Nil
  then show ?case by simp
next
  case (Cons a xs)
  from Cons.prems(1) have fa: "0 \<le> f a" and nn: "\<forall>x \<in> set xs. 0 \<le> f x" by simp_all
  have "0 \<le> sum_list (map f xs)" by (rule sum_list_nonneg) (use nn in auto)
  with Cons.prems(2) fa have "f a = 0" "sum_list (map f xs) = 0" by simp_all
  with Cons.IH[OF nn] show ?case by simp
qed

lemma feasible_rows:
  assumes dn: "distinct dn" and dp: "distinct dp" and dj: "set dn \<inter> set dp = {}"
  shows "imbalance_ok dn dp m \<Longrightarrow>
         (\<Sum>d\<leftarrow>dn. - delta_of m d) = (\<Sum>p\<leftarrow>dp. delta_of m p) \<Longrightarrow>
         set ds \<subseteq> set dn \<Longrightarrow> distinct ds \<Longrightarrow>
         \<exists>m'. find_feasible_loop m (List.product ds dp) = (Inr (), m')
           \<and> imbalance_ok dn dp m'
           \<and> (\<Sum>d\<leftarrow>dn. - delta_of m' d) = (\<Sum>p\<leftarrow>dp. delta_of m' p)
           \<and> (\<forall>x. x \<notin> set ds \<and> x \<notin> set dp \<longrightarrow> delta m' x = delta m x)
           \<and> (\<forall>e. e \<notin> set ds \<times> set dp \<longrightarrow> feasible m' e = feasible m e)
           \<and> (\<forall>d \<in> set ds. (\<Sum>p\<leftarrow>dp. assigned m' (d, p)) = - delta_of m d
                  \<and> delta_of m' d = 0)
           \<and> (\<forall>p \<in> set dp. delta_of m' p = delta_of m p - (\<Sum>d\<leftarrow>ds. assigned m' (d, p)))"
proof (induction ds arbitrary: m)
  case Nil
  then show ?case by simp
next
  case (Cons d ds)
  have d_in: "d \<in> set dn" and ds_sub: "set ds \<subseteq> set dn" and d_notin: "d \<notin> set ds"
    and ds_dist: "distinct ds"
    using Cons.prems(3,4) by simp_all
  have d_ndp: "d \<notin> set dp" using d_in dj by blast
  from feasible_row[OF Cons.prems(1) d_in subset_refl dp dj] obtain m1 where row:
    "find_feasible_loop m (map (Pair d) dp) = (Inr (), m1) \<and> imbalance_ok dn dp m1
     \<and> (\<forall>x. x \<noteq> d \<and> x \<notin> set dp \<longrightarrow> delta m1 x = delta m x)
     \<and> (\<forall>e. e \<notin> Pair d ` set dp \<longrightarrow> feasible m1 e = feasible m e)
     \<and> (\<forall>p \<in> set dp. 0 \<le> assigned m1 (d, p)
            \<and> delta_of m1 p = delta_of m p - assigned m1 (d, p))
     \<and> delta_of m1 d = delta_of m d + (\<Sum>p\<leftarrow>dp. assigned m1 (d, p))
     \<and> (delta_of m1 d = 0 \<or> (\<forall>p \<in> set dp. delta_of m1 p = 0))"
    by (erule exE)
  note r1 = row[THEN conjunct1]
    and ok1 = row[THEN conjunct2, THEN conjunct1]
    and a1 = row[THEN conjunct2, THEN conjunct2, THEN conjunct1]
    and b1 = row[THEN conjunct2, THEN conjunct2, THEN conjunct2, THEN conjunct1]
    and c1 = row[THEN conjunct2, THEN conjunct2, THEN conjunct2, THEN conjunct2, THEN conjunct1]
    and s1 = row[THEN conjunct2, THEN conjunct2, THEN conjunct2, THEN conjunct2, THEN conjunct2,
                THEN conjunct1]
    and e1 = row[THEN conjunct2, THEN conjunct2, THEN conjunct2, THEN conjunct2, THEN conjunct2,
                THEN conjunct2]
  define R where "R = (\<Sum>p\<leftarrow>dp. assigned m1 (d, p))"
  have S1: "(\<Sum>p\<leftarrow>dp. delta_of m1 p) = (\<Sum>p\<leftarrow>dp. delta_of m p) - R"
  proof -
    have "(\<Sum>p\<leftarrow>dp. delta_of m1 p) = (\<Sum>p\<leftarrow>dp. delta_of m p - assigned m1 (d, p))"
      by (rule sum_list_map_cong) (use c1 in simp)
    also have "\<dots> = (\<Sum>p\<leftarrow>dp. delta_of m p) - R"
      unfolding R_def by (simp add: sum_list_subtractf)
    finally show ?thesis .
  qed
  have other: "\<forall>y \<in> set dn. y \<noteq> d \<longrightarrow> - delta_of m1 y = - delta_of m y"
  proof (intro ballI impI)
    fix y assume "y \<in> set dn" "y \<noteq> d"
    then have "y \<noteq> d \<and> y \<notin> set dp" using dj by blast
    then have "delta m1 y = delta m y" by (rule a1[rule_format])
    then show "- delta_of m1 y = - delta_of m y" by (simp add: get_or_def)
  qed
  have D1: "(\<Sum>y\<leftarrow>dn. - delta_of m1 y) = (\<Sum>y\<leftarrow>dn. - delta_of m y) - R"
    using sum_list_change_one[OF dn d_in other] s1 unfolding R_def by simp
  have bal1: "(\<Sum>y\<leftarrow>dn. - delta_of m1 y) = (\<Sum>p\<leftarrow>dp. delta_of m1 p)"
    using S1 D1 Cons.prems(2) by simp
  have nn_dn: "\<forall>y \<in> set dn. 0 \<le> - delta_of m1 y"
    using ok1 unfolding imbalance_ok_def by (auto simp: get_or_def)
  have zero_d: "delta_of m1 d = 0"
  proof (cases "delta_of m1 d = 0")
    case True
    then show ?thesis .
  next
    case False
    with e1 have z: "\<forall>p \<in> set dp. delta_of m1 p = 0" by simp
    have "(\<Sum>p\<leftarrow>dp. delta_of m1 p) = (\<Sum>p\<leftarrow>dp. 0)"
      by (rule sum_list_map_cong[OF z])
    then have "(\<Sum>p\<leftarrow>dp. delta_of m1 p) = 0" by simp
    with bal1 have "(\<Sum>y\<leftarrow>dn. - delta_of m1 y) = 0" by simp
    from sum_list_nonneg_zero[OF nn_dn this] d_in show ?thesis by simp
  qed
  have Rval: "R = - delta_of m d" using s1 zero_d unfolding R_def by simp
  from Cons.IH[OF ok1 bal1 ds_sub ds_dist] obtain m' where rest:
    "find_feasible_loop m1 (List.product ds dp) = (Inr (), m')
           \<and> imbalance_ok dn dp m'
           \<and> (\<Sum>d\<leftarrow>dn. - delta_of m' d) = (\<Sum>p\<leftarrow>dp. delta_of m' p)
           \<and> (\<forall>x. x \<notin> set ds \<and> x \<notin> set dp \<longrightarrow> delta m' x = delta m1 x)
           \<and> (\<forall>e. e \<notin> set ds \<times> set dp \<longrightarrow> feasible m' e = feasible m1 e)
           \<and> (\<forall>d \<in> set ds. (\<Sum>p\<leftarrow>dp. assigned m' (d, p)) = - delta_of m1 d
                  \<and> delta_of m' d = 0)
           \<and> (\<forall>p \<in> set dp. delta_of m' p = delta_of m1 p - (\<Sum>d\<leftarrow>ds. assigned m' (d, p)))"
    by (erule exE)
  note r2 = rest[THEN conjunct1]
    and ok2 = rest[THEN conjunct2, THEN conjunct1]
    and bal2 = rest[THEN conjunct2, THEN conjunct2, THEN conjunct1]
    and a2 = rest[THEN conjunct2, THEN conjunct2, THEN conjunct2, THEN conjunct1]
    and b2 = rest[THEN conjunct2, THEN conjunct2, THEN conjunct2, THEN conjunct2, THEN conjunct1]
    and rw2 = rest[THEN conjunct2, THEN conjunct2, THEN conjunct2, THEN conjunct2, THEN conjunct2,
                THEN conjunct1]
    and cl2 = rest[THEN conjunct2, THEN conjunct2, THEN conjunct2, THEN conjunct2, THEN conjunct2,
                THEN conjunct2]
  have run: "find_feasible_loop m (List.product (d # ds) dp) = (Inr (), m')"
    using r1 r2 by (simp add: find_feasible_loop_append)
  have same_row: "\<And>p. assigned m' (d, p) = assigned m1 (d, p)"
  proof -
    fix p
    have "(d, p) \<notin> set ds \<times> set dp" using d_notin by simp
    then have "feasible m' (d, p) = feasible m1 (d, p)" by (rule b2[rule_format])
    then show "assigned m' (d, p) = assigned m1 (d, p)" by (simp add: get_or_def)
  qed
  have a': "\<forall>x. x \<notin> set (d # ds) \<and> x \<notin> set dp \<longrightarrow> delta m' x = delta m x"
  proof (intro allI impI)
    fix x assume x: "x \<notin> set (d # ds) \<and> x \<notin> set dp"
    then have "x \<notin> set ds \<and> x \<notin> set dp" by simp
    then have "delta m' x = delta m1 x" by (rule a2[rule_format])
    also from x have "x \<noteq> d \<and> x \<notin> set dp" by simp
    then have "delta m1 x = delta m x" by (rule a1[rule_format])
    finally show "delta m' x = delta m x" .
  qed
  have b': "\<forall>e. e \<notin> set (d # ds) \<times> set dp \<longrightarrow> feasible m' e = feasible m e"
  proof (intro allI impI)
    fix e assume e: "e \<notin> set (d # ds) \<times> set dp"
    then have "e \<notin> set ds \<times> set dp" by auto
    then have "feasible m' e = feasible m1 e" by (rule b2[rule_format])
    also from e have "e \<notin> Pair d ` set dp" by auto
    then have "feasible m1 e = feasible m e" by (rule b1[rule_format])
    finally show "feasible m' e = feasible m e" .
  qed
  have rw': "\<forall>x \<in> set (d # ds). (\<Sum>p\<leftarrow>dp. assigned m' (x, p)) = - delta_of m x
                  \<and> delta_of m' x = 0"
  proof
    fix x assume x: "x \<in> set (d # ds)"
    show "(\<Sum>p\<leftarrow>dp. assigned m' (x, p)) = - delta_of m x \<and> delta_of m' x = 0"
    proof (cases "x = d")
      case True
      have "d \<notin> set ds \<and> d \<notin> set dp" using d_notin d_ndp by simp
      then have "delta m' d = delta m1 d" by (rule a2[rule_format])
      then have "delta_of m' d = 0" using zero_d by (simp add: get_or_def)
      moreover have "(\<Sum>p\<leftarrow>dp. assigned m' (d, p)) = R"
        unfolding R_def by (simp add: same_row)
      ultimately show ?thesis using True Rval by simp
    next
      case False
      with x have xs: "x \<in> set ds" by simp
      then have "x \<in> set dn" using ds_sub by blast
      then have "x \<noteq> d \<and> x \<notin> set dp" using False dj by blast
      then have "delta m1 x = delta m x" by (rule a1[rule_format])
      then have "delta_of m1 x = delta_of m x" by (simp add: get_or_def)
      with rw2 xs show ?thesis by simp
    qed
  qed
  have cl': "\<forall>p \<in> set dp. delta_of m' p = delta_of m p - (\<Sum>x\<leftarrow>d # ds. assigned m' (x, p))"
  proof
    fix p assume p: "p \<in> set dp"
    from cl2 p have "delta_of m' p = delta_of m1 p - (\<Sum>x\<leftarrow>ds. assigned m' (x, p))" by simp
    moreover from c1 p have "delta_of m1 p = delta_of m p - assigned m1 (d, p)" by simp
    ultimately show "delta_of m' p = delta_of m p - (\<Sum>x\<leftarrow>d # ds. assigned m' (x, p))"
      by (simp add: same_row)
  qed
  from run ok2 bal2 a' b' rw' cl' show ?case by (intro exI[of _ m'] conjI)
qed

lemma split_loop_filter:
  assumes "\<forall>n \<in> set ns. d n \<noteq> None"
  shows "split_loop d ns a b =
           Inr (a @ filter (\<lambda>n. get_or d n 0 < 0) ns, b @ filter (\<lambda>n. get_or d n 0 > 0) ns)"
  using assms
proof (induction ns arbitrary: a b)
  case Nil
  then show ?case by simp
next
  case (Cons n ns)
  from Cons.prems obtain x where x: "d n = Some x" by auto
  from Cons.prems have rest: "\<forall>n \<in> set ns. d n \<noteq> None" by simp
  show ?case using Cons.IH[OF rest] x by (simp add: get_or_def)
qed

lemma count_heads:
  assumes "distinct ns"
  shows "(\<Sum>n\<leftarrow>ns. int (length (filter (\<lambda>e. h e = n) es)))
           = int (length (filter (\<lambda>e. h e \<in> set ns) es))"
  using assms
proof (induction ns)
  case Nil
  then show ?case by simp
next
  case (Cons n ns)
  then have n: "n \<notin> set ns" and d: "distinct ns" by simp_all
  have "length (filter (\<lambda>e. h e \<in> set (n # ns)) es)
          = length (filter (\<lambda>e. h e = n) es) + length (filter (\<lambda>e. h e \<in> set ns) es)"
    using n by (induction es) auto
  with Cons.IH[OF d] show ?case by simp
qed

lemma handshake:
  assumes "wf_digraph g"
  shows "(\<Sum>n\<leftarrow>nodes g. outgoing_dim g n - incoming_dim g n) = 0"
proof -
  from assms have dn: "distinct (nodes g)"
    and f: "\<forall>e \<in> set (edges g). fst e \<in> set (nodes g)"
    and s: "\<forall>e \<in> set (edges g). snd e \<in> set (nodes g)"
    unfolding wf_digraph_def by simp_all
  have "filter (\<lambda>e. fst e \<in> set (nodes g)) (edges g) = edges g" using f by simp
  with count_heads[OF dn, of fst "edges g"]
  have out: "(\<Sum>n\<leftarrow>nodes g. outgoing_dim g n) = int (length (edges g))"
    unfolding outgoing_dim_def by simp
  have "filter (\<lambda>e. snd e \<in> set (nodes g)) (edges g) = edges g" using s by simp
  with count_heads[OF dn, of snd "edges g"]
  have inc: "(\<Sum>n\<leftarrow>nodes g. incoming_dim g n) = int (length (edges g))"
    unfolding incoming_dim_def by simp
  show ?thesis using out inc by (simp add: sum_list_subtractf)
qed

lemma sum_list_split_sign:
  fixes f :: "'a \<Rightarrow> int"
  shows "sum_list (map f xs)
           = sum_list (map f (filter (\<lambda>x. f x < 0) xs)) + sum_list (map f (filter (\<lambda>x. f x > 0) xs))"
  by (induction xs) auto

lemma sum_list_map_uminus:
  fixes f :: "'a \<Rightarrow> int"
  shows "(\<Sum>x\<leftarrow>xs. - f x) = - (\<Sum>x\<leftarrow>xs. f x)"
  by (induction xs) simp_all

text \<open>
  C7. On a well-formed graph whose imbalances are those \<^verbatim>\<open>_set_delta\<close> computes, the
  feasible assignment built for the split (deficit, surplus) lists gives every deficit node
  amounts that sum, over the surplus nodes, to the magnitude of its imbalance, and every
  surplus node amounts that sum, over the deficit nodes, to its imbalance.
\<close>

theorem find_feasible_sums:
  assumes wf: "wf_digraph g" and dm: "delta m = set_delta g"
    and sp: "split_nodes_based_on_delta g m = Inr (delta_neq, delta_pos)"
  shows "\<exists>m'. find_feasible m delta_neq delta_pos = (Inr (), m')
           \<and> (\<forall>d \<in> set delta_neq. get_or (delta m) d 0 < 0
                  \<and> (\<Sum>p\<leftarrow>delta_pos. get_or (feasible m') (d, p) 0) = \<bar>get_or (delta m) d 0\<bar>)
           \<and> (\<forall>p \<in> set delta_pos. 0 < get_or (delta m) p 0
                  \<and> (\<Sum>d\<leftarrow>delta_neq. get_or (feasible m') (d, p) 0) = get_or (delta m) p 0)"
proof -
  let ?dl = "\<lambda>n. delta_of m n"
  have defd: "\<forall>n \<in> set (nodes g). delta m n \<noteq> None"
    by (simp add: dm set_delta_def)
  from split_loop_filter[OF defd, of "[]" "[]"] sp
  have dn_eq: "delta_neq = filter (\<lambda>n. ?dl n < 0) (nodes g)"
    and dp_eq: "delta_pos = filter (\<lambda>n. ?dl n > 0) (nodes g)"
    by (simp_all add: split_nodes_based_on_delta_def)
  from wf have dist: "distinct (nodes g)" unfolding wf_digraph_def by simp
  have d1: "distinct delta_neq" and d2: "distinct delta_pos"
    using dist by (simp_all add: dn_eq dp_eq)
  have dj: "set delta_neq \<inter> set delta_pos = {}"
    by (auto simp: dn_eq dp_eq)
  have neg: "\<forall>d \<in> set delta_neq. ?dl d < 0" by (simp add: dn_eq)
  have pos: "\<forall>p \<in> set delta_pos. 0 < ?dl p" by (simp add: dp_eq)
  have sub: "set delta_neq \<subseteq> set (nodes g)" "set delta_pos \<subseteq> set (nodes g)"
    by (auto simp: dn_eq dp_eq)
  have val: "\<And>n. n \<in> set (nodes g) \<Longrightarrow> delta m n = Some (?dl n)"
    using defd by (auto simp: get_or_def)
  have ok: "imbalance_ok delta_neq delta_pos m"
    unfolding imbalance_ok_def
  proof (intro conjI ballI)
    fix d assume d: "d \<in> set delta_neq"
    with sub have "delta m d = Some (?dl d)" by (auto intro: val)
    moreover from neg d have "?dl d \<le> 0" by auto
    ultimately show "\<exists>x. delta m d = Some x \<and> x \<le> 0" by simp
  next
    fix p assume p: "p \<in> set delta_pos"
    with sub have "delta m p = Some (?dl p)" by (auto intro: val)
    moreover from pos p have "0 \<le> ?dl p" by auto
    ultimately show "\<exists>x. delta m p = Some x \<and> 0 \<le> x" by simp
  qed
  have "\<forall>n \<in> set (nodes g). ?dl n = outgoing_dim g n - incoming_dim g n"
    by (simp add: dm set_delta_def get_or_def)
  then have "(\<Sum>n\<leftarrow>nodes g. ?dl n) = (\<Sum>n\<leftarrow>nodes g. outgoing_dim g n - incoming_dim g n)"
    by (rule sum_list_map_cong)
  with handshake[OF wf] have "(\<Sum>n\<leftarrow>nodes g. ?dl n) = 0" by simp
  with sum_list_split_sign[of ?dl "nodes g"]
  have "(\<Sum>n\<leftarrow>delta_neq. ?dl n) + (\<Sum>n\<leftarrow>delta_pos. ?dl n) = 0"
    by (simp add: dn_eq dp_eq)
  then have bal: "(\<Sum>d\<leftarrow>delta_neq. - ?dl d) = (\<Sum>p\<leftarrow>delta_pos. ?dl p)"
    by (simp add: sum_list_map_uminus)
  from feasible_rows[OF d1 d2 dj ok bal subset_refl d1] obtain m' where all:
    "find_feasible_loop m (List.product delta_neq delta_pos) = (Inr (), m')
           \<and> imbalance_ok delta_neq delta_pos m'
           \<and> (\<Sum>d\<leftarrow>delta_neq. - delta_of m' d) = (\<Sum>p\<leftarrow>delta_pos. delta_of m' p)
           \<and> (\<forall>x. x \<notin> set delta_neq \<and> x \<notin> set delta_pos \<longrightarrow> delta m' x = delta m x)
           \<and> (\<forall>e. e \<notin> set delta_neq \<times> set delta_pos \<longrightarrow> feasible m' e = feasible m e)
           \<and> (\<forall>d \<in> set delta_neq. (\<Sum>p\<leftarrow>delta_pos. assigned m' (d, p)) = - delta_of m d
                  \<and> delta_of m' d = 0)
           \<and> (\<forall>p \<in> set delta_pos.
                  delta_of m' p = delta_of m p - (\<Sum>d\<leftarrow>delta_neq. assigned m' (d, p)))"
    by (erule exE)
  note run = all[THEN conjunct1]
    and ok' = all[THEN conjunct2, THEN conjunct1]
    and bal' = all[THEN conjunct2, THEN conjunct2, THEN conjunct1]
    and rw = all[THEN conjunct2, THEN conjunct2, THEN conjunct2, THEN conjunct2, THEN conjunct2,
                THEN conjunct1]
    and cl = all[THEN conjunct2, THEN conjunct2, THEN conjunct2, THEN conjunct2, THEN conjunct2,
                THEN conjunct2]
  have res: "find_feasible m delta_neq delta_pos = (Inr (), m')"
    using run by (simp add: find_feasible_def)
  have rows: "\<forall>d \<in> set delta_neq. ?dl d < 0
                  \<and> (\<Sum>p\<leftarrow>delta_pos. assigned m' (d, p)) = \<bar>?dl d\<bar>"
  proof
    fix d assume d: "d \<in> set delta_neq"
    with neg have "?dl d < 0" by simp
    moreover from rw d have "(\<Sum>p\<leftarrow>delta_pos. assigned m' (d, p)) = - ?dl d" by simp
    ultimately show "?dl d < 0 \<and> (\<Sum>p\<leftarrow>delta_pos. assigned m' (d, p)) = \<bar>?dl d\<bar>" by simp
  qed
  have z: "\<forall>d \<in> set delta_neq. - delta_of m' d = 0" using rw by simp
  have "(\<Sum>d\<leftarrow>delta_neq. - delta_of m' d) = (\<Sum>d\<leftarrow>delta_neq. 0)"
    by (rule sum_list_map_cong[OF z])
  with bal' have s0: "(\<Sum>p\<leftarrow>delta_pos. delta_of m' p) = 0" by simp
  have nn: "\<forall>p \<in> set delta_pos. 0 \<le> delta_of m' p"
    using ok' unfolding imbalance_ok_def by (auto simp: get_or_def)
  note zp = sum_list_nonneg_zero[OF nn s0]
  have cols: "\<forall>p \<in> set delta_pos. 0 < ?dl p
                  \<and> (\<Sum>d\<leftarrow>delta_neq. assigned m' (d, p)) = ?dl p"
  proof
    fix p assume p: "p \<in> set delta_pos"
    with pos have "0 < ?dl p" by simp
    moreover from cl p have "delta_of m' p = ?dl p - (\<Sum>d\<leftarrow>delta_neq. assigned m' (d, p))"
      by simp
    moreover from zp p have "delta_of m' p = 0" by simp
    ultimately show "0 < ?dl p \<and> (\<Sum>d\<leftarrow>delta_neq. assigned m' (d, p)) = ?dl p" by simp
  qed
  from res rows cols show ?thesis by (intro exI[of _ m'] conjI)
qed

theorem find_feasible_sums_witness:
  "wf_digraph two_by_two_graph
   \<and> split_nodes_based_on_delta two_by_two_graph (init_state two_by_two_graph)
       = Inr ([''2'', ''3''], [''0'', ''1''])
   \<and> (\<exists>m'. find_feasible (init_state two_by_two_graph) [''2'', ''3''] [''0'', ''1'']
              = (Inr (), m')
         \<and> get_or (feasible m') (''2'', ''0'') 0 + get_or (feasible m') (''2'', ''1'') 0 = 1
         \<and> get_or (feasible m') (''3'', ''0'') 0 + get_or (feasible m') (''3'', ''1'') 0 = 1
         \<and> get_or (feasible m') (''2'', ''0'') 0 + get_or (feasible m') (''3'', ''0'') 0 = 1
         \<and> get_or (feasible m') (''2'', ''1'') 0 + get_or (feasible m') (''3'', ''1'') 0 = 1)"
proof -
  have wf: "wf_digraph two_by_two_graph" by code_simp
  have dm: "delta (init_state two_by_two_graph) = set_delta two_by_two_graph"
    by (simp add: init_state_def)
  have sp: "split_nodes_based_on_delta two_by_two_graph (init_state two_by_two_graph)
       = Inr ([''2'', ''3''], [''0'', ''1''])"
    by code_simp
  have v: "get_or (delta (init_state two_by_two_graph)) ''2'' 0 = - 1"
    "get_or (delta (init_state two_by_two_graph)) ''3'' 0 = - 1"
    "get_or (delta (init_state two_by_two_graph)) ''0'' 0 = 1"
    "get_or (delta (init_state two_by_two_graph)) ''1'' 0 = 1"
    by code_simp+
  from find_feasible_sums[OF wf dm sp] v wf sp show ?thesis by auto
qed

section \<open>The cycle canceller\<close>

lemma reverse_amounts_Cons:
  "reverse_amounts rcost f ((u, v) # es) =
     (if get_or rcost (u, v) 0 < 0 then get_or f (v, u) 0 # reverse_amounts rcost f es
      else reverse_amounts rcost f es)"
  by (simp add: reverse_amounts_def)

lemma Min_cons_step:
  fixes a k :: int
  shows "(if flag then Min (set (a # am)) else min k (Min (set (a # am))))
           = (if am = [] then (if flag \<or> k > a then a else k)
              else min (if flag \<or> k > a then a else k) (Min (set am)))"
proof (cases "am = []")
  case True
  then show ?thesis by (auto simp: min_def)
next
  case False
  then have "Min (set (a # am)) = min a (Min (set am))" by (simp add: Min_insert)
  with False show ?thesis by (auto simp: min_def)
qed

lemma find_k_walk:
  assumes "tree_walk rtree n u vs" and "\<forall>e \<in> set (zip (u # vs) (vs @ [n])). rcost e \<noteq> None"
  shows "find_k rcost rtree f n u k flag =
           Some (Inr (if reverse_amounts rcost f (zip (u # vs) (vs @ [n])) = [] then k
                      else if flag then Min (set (reverse_amounts rcost f (zip (u # vs) (vs @ [n]))))
                      else min k (Min (set (reverse_amounts rcost f (zip (u # vs) (vs @ [n])))))))"
  using assms
proof (induction vs arbitrary: u k flag)
  case Nil
  then obtain c where c: "rcost (u, n) = Some c" by auto
  from Nil have t: "rtree (u, n) = Some n" by simp
  have g: "get_or rcost (u, n) 0 = c" by (simp add: get_or_def c)
  show ?case
    by (subst find_k.simps) (auto simp: t c g reverse_amounts_Cons reverse_amounts_def)
next
  case (Cons v vs)
  from Cons.prems(1) have t: "rtree (u, n) = Some v" and vn: "v \<noteq> n" and w: "tree_walk rtree n v vs"
    by simp_all
  from Cons.prems(2) obtain c where c: "rcost (u, v) = Some c" by auto
  have g: "get_or rcost (u, v) 0 = c" by (simp add: get_or_def c)
  from Cons.prems(2) have rest: "\<forall>e \<in> set (zip (v # vs) (vs @ [n])). rcost e \<noteq> None" by simp
  let ?am = "reverse_amounts rcost f (zip (v # vs) (vs @ [n]))"
  let ?a = "get_or f (v, u) 0"
  have z: "zip (u # v # vs) ((v # vs) @ [n]) = (u, v) # zip (v # vs) (vs @ [n])" by simp
  note ih = Cons.IH[OF w rest]
  show ?case
  proof (cases "c < 0")
    case neg: True
    have am: "reverse_amounts rcost f (zip (u # v # vs) ((v # vs) @ [n])) = ?a # ?am"
      unfolding z by (simp add: reverse_amounts_Cons g neg)
    let ?k' = "if flag \<or> k > ?a then ?a else k"
    have "find_k rcost rtree f n u k flag = find_k rcost rtree f n v ?k' False"
      by (subst find_k.simps) (use neg vn in \<open>simp add: t c\<close>)
    also have "\<dots> = Some (Inr (if ?am = [] then ?k' else min ?k' (Min (set ?am))))"
      using ih[of ?k' False] by simp
    also have "(if ?am = [] then ?k' else min ?k' (Min (set ?am)))
                 = (if flag then Min (set (?a # ?am)) else min k (Min (set (?a # ?am))))"
      by (rule Min_cons_step[symmetric])
    finally show ?thesis unfolding am by simp
  next
    case False
    have am: "reverse_amounts rcost f (zip (u # v # vs) ((v # vs) @ [n])) = ?am"
      unfolding z by (simp add: reverse_amounts_Cons g False)
    have "find_k rcost rtree f n u k flag = find_k rcost rtree f n v k flag"
      by (subst find_k.simps) (use False vn in \<open>simp add: t c\<close>)
    also note ih[of k flag]
    finally show ?thesis unfolding am .
  qed
qed

lemma cancel_k_walk:
  assumes "tree_walk rtree n u vs" and "\<forall>e \<in> set (zip (u # vs) (vs @ [n])). rcost e \<noteq> None"
  shows "cancel_k rcost rtree n u k f =
           Some (Inr (), cancel_cycle rcost k (zip (u # vs) (vs @ [n])) f)"
  using assms
proof (induction vs arbitrary: u f)
  case Nil
  then obtain c where c: "rcost (u, n) = Some c" by auto
  from Nil have t: "rtree (u, n) = Some n" by simp
  have g: "get_or rcost (u, n) 0 = c" by (simp add: get_or_def c)
  show ?case
    by (subst cancel_k.simps) (simp add: t c g cancel_cycle_def cancel_edge_def)
next
  case (Cons v vs)
  from Cons.prems(1) have t: "rtree (u, n) = Some v" and vn: "v \<noteq> n" and w: "tree_walk rtree n v vs"
    by simp_all
  from Cons.prems(2) obtain c where c: "rcost (u, v) = Some c" by auto
  have g: "get_or rcost (u, v) 0 = c" by (simp add: get_or_def c)
  from Cons.prems(2) have rest: "\<forall>e \<in> set (zip (v # vs) (vs @ [n])). rcost e \<noteq> None" by simp
  have "cancel_k rcost rtree n u k f = cancel_k rcost rtree n v k (cancel_edge rcost k (u, v) f)"
    by (subst cancel_k.simps) (use vn in \<open>simp add: t c g cancel_edge_def\<close>)
  also note Cons.IH[OF w rest, of "cancel_edge rcost k (u, v) f"]
  finally show ?case by (simp add: cancel_cycle_def)
qed

lemma improvements_loop_skip:
  assumes "\<forall>p \<in> set pre. \<not> get_or rcost (p, p) 0 < 0"
  shows "improvements_loop rcost rtree m (pre @ rest) = improvements_loop rcost rtree m rest"
  using assms by (induction pre) simp_all

text \<open>
  What \<^verbatim>\<open>_improvements\<close> does with the cost map and the spanning tree it is handed.
  It scans the nodes in order. At the first node \<open>n\<close> whose self-pair cost is negative,
  with the spanning tree leading from \<open>n\<close> back to \<open>n\<close> along \<open>cycle_edges n vs\<close>, it
  returns \<open>True\<close> without looking at later nodes, and the assignment it leaves is the old
  one with the bottleneck \<open>k\<close> (the least assignment of a reverse edge of the cycle)
  subtracted on every reverse edge and added on every forward edge. When no node has a
  negative self-pair cost it returns \<open>False\<close> and changes nothing.
\<close>

lemma improvements_on_closure:
  "(nodes g = pre @ n # post
      \<and> (\<forall>p \<in> set pre. \<not> get_or (cost r) (p, p) 0 < 0)
      \<and> get_or (cost r) (n, n) 0 < 0
      \<and> tree_walk (spanning_tree r) n n vs
      \<and> (\<forall>e \<in> set (cycle_edges n vs). cost r e \<noteq> None)
    \<longrightarrow> improvements g m r =
          Some (Inr True,
                m\<lparr>feasible :=
                    cancel_cycle (cost r) (bottleneck (cost r) (feasible m) (cycle_edges n vs))
                      (cycle_edges n vs) (feasible m)\<rparr>))
   \<and> ((\<forall>p \<in> set (nodes g). \<not> get_or (cost r) (p, p) 0 < 0)
    \<longrightarrow> improvements g m r = Some (Inr False, m))"
proof (intro conjI impI)
  assume h: "nodes g = pre @ n # post
      \<and> (\<forall>p \<in> set pre. \<not> get_or (cost r) (p, p) 0 < 0)
      \<and> get_or (cost r) (n, n) 0 < 0
      \<and> tree_walk (spanning_tree r) n n vs
      \<and> (\<forall>e \<in> set (cycle_edges n vs). cost r e \<noteq> None)"
  note ns = h[THEN conjunct1]
    and pre = h[THEN conjunct2, THEN conjunct1]
    and neg = h[THEN conjunct2, THEN conjunct2, THEN conjunct1]
    and walk = h[THEN conjunct2, THEN conjunct2, THEN conjunct2, THEN conjunct1]
    and dfd = h[THEN conjunct2, THEN conjunct2, THEN conjunct2, THEN conjunct2]
  let ?cyc = "cycle_edges n vs"
  from dfd have dfd': "\<forall>e \<in> set (zip (n # vs) (vs @ [n])). cost r e \<noteq> None"
    by (simp add: cycle_edges_def)
  have k: "find_k (cost r) (spanning_tree r) (feasible m) n n 0 True
             = Some (Inr (bottleneck (cost r) (feasible m) ?cyc))"
    using find_k_walk[OF walk dfd', of "feasible m" 0 True]
    by (simp add: bottleneck_def cycle_edges_def)
  have c: "cancel_k (cost r) (spanning_tree r) n n (bottleneck (cost r) (feasible m) ?cyc) (feasible m)
             = Some (Inr (), cancel_cycle (cost r) (bottleneck (cost r) (feasible m) ?cyc) ?cyc
                               (feasible m))"
    using cancel_k_walk[OF walk dfd'] by (simp add: cycle_edges_def)
  have "improvements g m r
          = improvements_loop (cost r) (spanning_tree r) m (n # post)"
    unfolding improvements_def ns by (rule improvements_loop_skip[OF pre])
  also have "\<dots> = Some (Inr True,
                m\<lparr>feasible :=
                    cancel_cycle (cost r) (bottleneck (cost r) (feasible m) ?cyc) ?cyc
                      (feasible m)\<rparr>)"
    using neg by (simp add: k c)
  finally show "improvements g m r =
          Some (Inr True,
                m\<lparr>feasible :=
                    cancel_cycle (cost r) (bottleneck (cost r) (feasible m) ?cyc) ?cyc
                      (feasible m)\<rparr>)" .
next
  assume none: "\<forall>p \<in> set (nodes g). \<not> get_or (cost r) (p, p) 0 < 0"
  have "improvements g m r = improvements_loop (cost r) (spanning_tree r) m (nodes g @ [])"
    by (simp add: improvements_def)
  also have "\<dots> = improvements_loop (cost r) (spanning_tree r) m []"
    by (rule improvements_loop_skip[OF none])
  finally show "improvements g m r = Some (Inr False, m)" by simp
qed

subsection \<open>The residual manager that \<^verbatim>\<open>compute_cpt\<close> builds has no self pair\<close>

text \<open>
  The cost map of the residual manager is the one its constructor computes: one entry per
  residual edge. \<^verbatim>\<open>least_cost_paths\<close> is not called on it, so there is no entry of a
  self pair (deficit and surplus nodes are disjoint), \<^verbatim>\<open>_improvements\<close> returns
  \<open>False\<close>, and the improvement loop of \<^verbatim>\<open>compute_cpt\<close> ends at its first test with the
  assignment unchanged.
\<close>

lemma residual_loop_edges:
  "residual_loop c f ps rd rc = Inr (rd', rc') \<Longrightarrow>
     set (edges rd') \<subseteq> set (edges rd) \<union> set ps \<union> (\<lambda>(a, b). (b, a)) ` set ps"
proof (induction ps arbitrary: rd rc)
  case Nil
  then show ?case by simp
next
  case (Cons p ps)
  obtain a b where p: "p = (a, b)" by (cases p)
  from Cons.prems obtain cab where cab: "c (a, b) = Some cab"
    by (auto simp: p Let_def split: option.splits)
  from Cons.prems obtain fab where fab: "f (a, b) = Some fab"
    by (auto simp: p cab Let_def split: option.splits)
  show ?case
  proof (cases "fab \<noteq> 0")
    case True
    with Cons.prems have "residual_loop c f ps (connect_nodes (b, a) (connect_nodes (a, b) rd))
                            (rc((a, b) \<mapsto> cab, (b, a) \<mapsto> - cab)) = Inr (rd', rc')"
      by (simp add: p cab fab Let_def)
    from Cons.IH[OF this] show ?thesis
      by (auto simp: connect_nodes_simps p)
  next
    case False
    with Cons.prems have "residual_loop c f ps (connect_nodes (a, b) rd)
                            (rc((a, b) \<mapsto> cab)) = Inr (rd', rc')"
      by (simp add: p cab fab Let_def)
    from Cons.IH[OF this] show ?thesis
      by (auto simp: connect_nodes_simps p)
  qed
qed

lemma residual_manager_no_self_pair:
  assumes "set delta_neq \<inter> set delta_pos = {}"
    and "get_residual_diblob_manager_for_cpt g m delta_neq delta_pos = Inr (rg, rm)"
  shows "cost rm (n, n) = None"
proof -
  let ?rd0 = "add_nodes (nodes g)
                \<lparr>nodes = [], edges = [], cost_function = Map.empty,
                 default_cost = default_cost g\<rparr>"
  from assms(2) obtain rd' rc' where
    r: "residual_loop (cost m) (feasible m) (List.product delta_neq delta_pos) ?rd0 Map.empty
          = Inr (rd', rc')"
    and rg: "rg = rd'\<lparr>cost_function := rc'\<rparr>" and rm: "rm = init_state rg"
    by (auto simp: get_residual_diblob_manager_for_cpt_def Let_def split: sum.splits)
  from residual_loop_edges[OF r] assms(1) have "(n, n) \<notin> set (edges rd')"
    by (auto simp: add_nodes_def)
  then show ?thesis
    by (simp add: rm rg init_state_def set_cost_def)
qed

lemma improvements_no_self_pair:
  assumes "\<And>n. cost r (n, n) = None"
  shows "improvements g m r = Some (Inr False, m)"
proof -
  have none: "\<forall>p \<in> set (nodes g). \<not> get_or (cost r) (p, p) 0 < 0"
    by (simp add: get_or_def assms)
  have "improvements g m r = improvements_loop (cost r) (spanning_tree r) m (nodes g @ [])"
    by (simp add: improvements_def)
  also have "\<dots> = improvements_loop (cost r) (spanning_tree r) m []"
    by (rule improvements_loop_skip[OF none])
  finally show ?thesis by simp
qed

lemma improve_loop_built_residual:
  assumes "set delta_neq \<inter> set delta_pos = {}"
  shows "improve_loop g delta_neq delta_pos m = Some (Inr (), m)
         \<or> (\<exists>e. improve_loop g delta_neq delta_pos m = Some (Inl e, m))"
proof (cases "get_residual_diblob_manager_for_cpt g m delta_neq delta_pos")
  case (Inl e)
  then show ?thesis by (subst (1 2) improve_loop.simps) simp
next
  case (Inr x)
  obtain rg rm where x: "x = (rg, rm)" by (cases x)
  from residual_manager_no_self_pair[OF assms Inr[unfolded x]]
  have "improvements g m rm = Some (Inr False, m)" by (rule improvements_no_self_pair)
  with Inr x show ?thesis by (subst improve_loop.simps) simp
qed

text \<open>
  C5. The claim: for every residual graph whose cost closure has a node with a negative
  self-pair cost, the cycle canceller returns improvement at the first such node and
  moves the bottleneck amount along the cycle. On \<open>crossed_graph\<close> the assignment built
  first gives 1 to \<open>(d1, s1)\<close> and to \<open>(d2, s2)\<close>, pairs three edges apart. The cost
  closure of its residual graph has the self pair \<open>(s2, s2)\<close> at \<open>-4\<close>, and no negative
  self pair before it in node order; handed that closure, \<^verbatim>\<open>_improvements\<close> returns
  \<open>True\<close> and moves the assignment to \<open>(d1, s2)\<close> and \<open>(d2, s1)\<close>, which lowers the cost
  of the duplications from 6 to 2. The canceller as \<^verbatim>\<open>compute_cpt\<close> runs it gets the
  residual manager without its closure (no self pair has an entry): it returns \<open>False\<close>,
  the assignment stays, and \<^verbatim>\<open>compute_cpt\<close> returns the cost 12 where 8 is possible.
\<close>

theorem improvements_crossed_graph_no_improvement:
  "split_nodes_based_on_delta crossed_graph
     (snd (check_if_digraph_is_strongly_connected crossed_graph (init_state crossed_graph)))
     = Inr ([''d1'', ''d2''], [''s1'', ''s2''])
   \<and> map (feasible crossed_assigned)
        [(''d1'', ''s1''), (''d1'', ''s2''), (''d2'', ''s1''), (''d2'', ''s2'')]
       = [Some 1, Some 0, Some 0, Some 1]
   \<and> duplication_cost crossed_assigned [''d1'', ''d2''] [''s1'', ''s2''] = 6
   \<and> map (\<lambda>n. get_or (cost crossed_residual) (n, n) 0) (nodes crossed_graph) = [0, 0, 0, - 4]
   \<and> map_option (\<lambda>x. (fst x,
                       map (feasible (snd x))
                         [(''d1'', ''s1''), (''d1'', ''s2''), (''d2'', ''s1''), (''d2'', ''s2'')],
                       duplication_cost (snd x) [''d1'', ''d2''] [''s1'', ''s2'']))
        (improvements crossed_graph crossed_assigned crossed_residual)
       = Some (Inr True, [Some 0, Some 1, Some 1, Some 0], 2)
   \<and> map (\<lambda>n. cost crossed_residual_built (n, n)) (nodes crossed_graph)
       = [None, None, None, None]
   \<and> improvements crossed_graph crossed_assigned crossed_residual_built
       = Some (Inr False, crossed_assigned)
   \<and> improve_loop crossed_graph [''d1'', ''d2''] [''s1'', ''s2''] crossed_assigned
       = Some (Inr (), crossed_assigned)
   \<and> map_option (map_sum id snd \<circ> fst)
        (compute_cpt crossed_graph (init_state crossed_graph) ''d1'') = Some (Inr 12)"
proof -
  have split: "split_nodes_based_on_delta crossed_graph
     (snd (check_if_digraph_is_strongly_connected crossed_graph (init_state crossed_graph)))
     = Inr ([''d1'', ''d2''], [''s1'', ''s2''])"
    by code_simp
  have before: "map (feasible crossed_assigned)
        [(''d1'', ''s1''), (''d1'', ''s2''), (''d2'', ''s1''), (''d2'', ''s2'')]
       = [Some 1, Some 0, Some 0, Some 1]"
    by code_simp
  have dup: "duplication_cost crossed_assigned [''d1'', ''d2''] [''s1'', ''s2''] = 6"
    by code_simp
  have closure: "map (\<lambda>n. get_or (cost crossed_residual) (n, n) 0) (nodes crossed_graph)
                   = [0, 0, 0, - 4]"
    by code_simp
  have claimed: "map_option (\<lambda>x. (fst x,
                       map (feasible (snd x))
                         [(''d1'', ''s1''), (''d1'', ''s2''), (''d2'', ''s1''), (''d2'', ''s2'')],
                       duplication_cost (snd x) [''d1'', ''d2''] [''s1'', ''s2'']))
        (improvements crossed_graph crossed_assigned crossed_residual)
       = Some (Inr True, [Some 0, Some 1, Some 1, Some 0], 2)"
    by code_simp
  have built: "map (\<lambda>n. cost crossed_residual_built (n, n)) (nodes crossed_graph)
                 = [None, None, None, None]"
    by code_simp
  have "case get_residual_diblob_manager_for_cpt crossed_graph crossed_assigned
               [''d1'', ''d2''] [''s1'', ''s2''] of Inr x \<Rightarrow> True | Inl e \<Rightarrow> False"
    by code_simp
  then obtain rg rm where res: "get_residual_diblob_manager_for_cpt crossed_graph crossed_assigned
               [''d1'', ''d2''] [''s1'', ''s2''] = Inr (rg, rm)"
    by (cases "get_residual_diblob_manager_for_cpt crossed_graph crossed_assigned
               [''d1'', ''d2''] [''s1'', ''s2'']") auto
  then have rm: "crossed_residual_built = rm"
    by (simp add: crossed_residual_built_def)
  have disj: "set [''d1'', ''d2''] \<inter> set [''s1'', ''s2''] = ({} :: string set)" by simp
  have no_self: "\<And>n. cost rm (n, n) = None"
    by (rule residual_manager_no_self_pair[OF disj res])
  have imp: "improvements crossed_graph crossed_assigned crossed_residual_built
               = Some (Inr False, crossed_assigned)"
    unfolding rm by (rule improvements_no_self_pair[OF no_self])
  have loop: "improve_loop crossed_graph [''d1'', ''d2''] [''s1'', ''s2''] crossed_assigned
                = Some (Inr (), crossed_assigned)"
    by (subst improve_loop.simps) (simp add: res imp[unfolded rm])
  have result: "map_option (map_sum id snd \<circ> fst)
        (compute_cpt crossed_graph (init_state crossed_graph) ''d1'') = Some (Inr 12)"
    by code_simp
  from split before dup closure claimed built imp loop result show ?thesis
    by (intro conjI)
qed

section \<open>Negative cycles in the closure computation\<close>





















text \<open>
  The inner loop of \<^verbatim>\<open>_get_cpt\<close> never exits when the spanning tree sends \<open>u\<close> to
  itself on the way to another node.
\<close>

lemma walk_path_stuck:
  assumes "tree (u, v) = Some u" and "u \<noteq> v"
  shows "walk_path tree u v cpt = None"
proof (rule ccontr)
  assume "walk_path tree u v cpt \<noteq> None"
  then obtain r where r: "walk_path tree u v cpt = Some r" by auto
  have "\<not> (tree (u, v) = Some u \<and> u \<noteq> v)"
    by (rule walk_path.raw_induct[where P = "\<lambda>t a b _ _. \<not> (t (a, b) = Some a \<and> a \<noteq> b)", OF _ r])
       (auto split: option.splits if_splits)
  with assms show False by simp
qed

text \<open>
  On \<open>negative_loop_graph\<close> the closure computation stops at the self pair of \<open>c\<close> after it
  has routed \<open>(c, a)\<close> through the self loop, every pair has an entry, and the extraction
  from \<open>c\<close> serves the pair \<open>(c, a)\<close> first: \<^verbatim>\<open>compute_cpt\<close> does not return.
\<close>

lemma compute_cpt_negative_loop_never_returns:
  "compute_cpt negative_loop_graph (init_state negative_loop_graph) ''c'' = None"
proof -
  have "map_option (\<lambda>r. (fst r, find_path negative_loop_graph ''c'' (feasible (snd r)),
                          spanning_tree (snd r) (''c'', ''a'')))
          (compute_cpt_assignment negative_loop_graph (init_state negative_loop_graph))
        = Some (Inr (), Some ''a'', Some ''c'')"
    by code_simp
  then obtain m3 where a: "compute_cpt_assignment negative_loop_graph (init_state negative_loop_graph)
                             = Some (Inr (), m3)"
    and f: "find_path negative_loop_graph ''c'' (feasible m3) = Some ''a''"
    and t: "spanning_tree m3 (''c'', ''a'') = Some ''c''"
    by (cases "compute_cpt_assignment negative_loop_graph (init_state negative_loop_graph)") auto
  have w: "walk_path (spanning_tree m3) ''c'' ''a'' [] = None"
    by (rule walk_path_stuck[of "spanning_tree m3" "''c''" "''a''", OF t]) simp
  have "get_cpt_loop negative_loop_graph (spanning_tree m3) ''c'' ''c'' (feasible m3) {} [] = None"
    by (subst get_cpt_loop.simps) (simp add: f w)
  then have "get_cpt negative_loop_graph m3 ''c'' = None"
    by (simp add: get_cpt_def)
  with a show ?thesis by (simp add: compute_cpt_def)
qed




section \<open>Repeated calls\<close>

subsection \<open>The closure of a graph with positive costs\<close>









subsection \<open>Following the spanning tree ends\<close>






subsection \<open>The assignment and the extraction return\<close>









lemma cpt_test_updated_strongly_connected: "strongly_connected cpt_test_updated"
proof -
  have "fst (check_if_digraph_is_strongly_connected cpt_test_updated
               (init_state cpt_test_updated)) = Inr True"
    by code_simp
  with check_sound[OF closure_sound_init_state, of cpt_test_updated]
  have "\<forall>u \<in> set (nodes cpt_test_updated). \<forall>v \<in> set (nodes cpt_test_updated).
          (u, v) \<in> (set (edges cpt_test_updated))\<^sup>+"
    by auto
  then show ?thesis
    unfolding strongly_connected_def by (blast intro: trancl_into_rtrancl)
qed




end
